theory Spec2Isabelle
  imports Main "HOL-Library.AList" "HOL-Library.Multiset"
begin

section \<open>Python values, exceptions and the logger\<close>

text \<open>
  The values that flow through ports. A work target returns any Python object; the model keeps
  the shapes the port layer distinguishes: \<open>None\<close>, scalars, strings and sequences.
\<close>

datatype pyval = PyNone | PyInt int | PyStr string | PyList "pyval list"

text \<open>
  Exceptions as values. \<open>Exception msg\<close> is an exception raised by user code (a work
  target or a downstream observer) or by \<open>raise Exception(msg)\<close> in the library.
\<close>

datatype exn = IndexError | TypeError | ValueError | KeyError | AttributeError
  | AssertionError | Exception string

text \<open>
  Calls of the logger. \<open>Error msg e\<close> is \<open>logger.error(msg % str(e))\<close>,
  \<open>Error_traceback e\<close> is \<open>logger.error(traceback.format_exc())\<close> while \<open>e\<close> is handled.
\<close>

datatype log_record = Info string | Error string exn | Error_traceback exn

type_synonym kwargs = "(string \<times> pyval) list"

text \<open>
  A resolved work target (\<open>Worker._get_target_func\<close>): called with positional and keyword
  arguments it returns a value or raises. An observer of an output port: its \<open>notify\<close>
  returns or raises. Both are code from outside the node and parameters of the model, taken
  as functions of their arguments; what an observer does to its own node is not followed.
\<close>

type_synonym target = "pyval list \<Rightarrow> kwargs \<Rightarrow> exn + pyval"
type_synonym observer = "pyval \<Rightarrow> exn + unit"

text \<open>
  Subscripts of a Python list of length \<open>len\<close>: \<open>0 .. len - 1\<close> are positions,
  \<open>-len .. -1\<close> count back from the end, every other integer raises \<open>IndexError\<close>.
\<close>

definition py_index :: "nat \<Rightarrow> int \<Rightarrow> nat option" where
  "py_index len i =
     (if 0 \<le> i \<and> i < int len then Some (nat i)
      else if i < 0 \<and> - int len \<le> i then Some (nat (int len + i))
      else None)"

definition list_setitem :: "'a list \<Rightarrow> int \<Rightarrow> 'a \<Rightarrow> exn + 'a list" where
  "list_setitem xs i v =
     (case py_index (length xs) i of
        None \<Rightarrow> Inl IndexError
      | Some j \<Rightarrow> Inr (xs[j := v]))"

definition list_getitem :: "'a list \<Rightarrow> int \<Rightarrow> exn + 'a" where
  "list_getitem xs i =
     (case py_index (length xs) i of
        None \<Rightarrow> Inl IndexError
      | Some j \<Rightarrow> Inr (xs ! j))"

section \<open>Ports, workers and the node\<close>

datatype input_port =
    InputPort
  | ArgInputPort "int option"
  | MappingArgInputPort "int option"
  | KwargInputPort string
  | BatchArgInputPort int "int option"

text \<open>
  The two queues of an asynchronous worker are \<open>queue.Queue\<close> or
  \<open>multiprocessing.JoinableQueue\<close> objects (Python's library, not this repository's code):
  a FIFO with a count of unfinished tasks, which \<open>put\<close> increments and \<open>task_done\<close>
  decrements (a \<open>ValueError\<close> when it is already zero, here \<open>None\<close>); \<open>get\<close> blocks while
  the queue is empty and \<open>join\<close> blocks until the count is zero.
\<close>

record 'a queue =
  items :: "'a list"
  unfinished_tasks :: nat

definition new_queue :: "'a queue" where
  "new_queue = \<lparr>items = [], unfinished_tasks = 0\<rparr>"

definition queue_put :: "'a \<Rightarrow> 'a queue \<Rightarrow> 'a queue" where
  "queue_put x q = q\<lparr>items := items q @ [x], unfinished_tasks := Suc (unfinished_tasks q)\<rparr>"

definition task_done :: "'a queue \<Rightarrow> 'a queue option" where
  "task_done q =
     (if unfinished_tasks q = 0 then None
      else Some (q\<lparr>unfinished_tasks := unfinished_tasks q - 1\<rparr>))"

text \<open>What the queues hold: calls \<open>(args, kwargs)\<close> or results, and \<open>PoisonPill()\<close> objects.\<close>

datatype work_item = Work "pyval list" kwargs | Work_pill

datatype result_item = Result pyval | Result_pill

text \<open>
  Where a thread of the pool stands. A thread running \<open>AsyncWorker._worker\<close> is about to
  \<open>get\<close> (\<open>W_get\<close>), holds a call and is about to run the target and put the result
  (\<open>W_run\<close>), is about to call \<open>task_done\<close> after a result (\<open>W_ack\<close>) or after a pill
  (\<open>W_pill_ack\<close>), has returned (\<open>W_done\<close>), or was ended by an exception (\<open>W_dead\<close>).
  The thread running \<open>AsyncWorker._result_handler\<close> likewise.
\<close>

datatype worker_pc = W_get | W_run "pyval list" kwargs | W_ack | W_pill_ack | W_done | W_dead

datatype result_pc = R_get | R_run pyval | R_ack | R_pill_ack | R_done | R_dead

text \<open>
  The fields \<open>AsyncWorker.start\<close> assigns: \<open>worker_queue\<close>, \<open>result_queue\<close>,
  \<open>worker_threads\<close> and \<open>result_thread\<close>.
\<close>

record pool =
  worker_queue :: "work_item queue"
  result_queue :: "result_item queue"
  worker_threads :: "worker_pc list"
  result_thread :: result_pc

text \<open>
  \<open>SyncWorker\<close> has the fields \<open>target\<close> (here: whether it is set) and \<open>isStarted\<close>.
  \<open>AsyncWorker\<close> has \<open>num_threads\<close> and the four fields of the pool, all \<open>None\<close> until
  \<open>start\<close>.
\<close>

datatype worker =
    SyncWorker (target_set: bool) (isStarted: bool)
  | AsyncWorker (num_threads: nat) (pool: "pool option")

text \<open>
  The node. \<open>node_value\<close> is \<open>_value\<close>. Three fields record what the node does to its
  surroundings: \<open>notified\<close> lists the calls \<open>observer.notify(data)\<close> made by the output port
  (position of the observer, data), \<open>logged\<close> the calls of the logger, \<open>invocations\<close> the calls
  \<open>worker.execute(*args, **kwargs)\<close> made by \<open>handle_input\<close>.
\<close>

record node =
  reactive_input_ports :: "input_port list"
  reactive_input_values :: "pyval list"
  passive_input_ports :: "(string \<times> input_port) list"
  passive_input_values :: kwargs
  node_value :: pyval
  worker :: worker
  notified :: "(nat \<times> pyval) list"
  logged :: "log_record list"
  invocations :: "(pyval list \<times> kwargs) list"

text \<open>
  Modelled from the spec: \<open>Observable.notify_observers\<close> (module \<open>colony.observer\<close> is not
  among the sources). "\<open>notify(data)\<close> synchronously invokes every registered subscriber's
  \<open>notify(data)\<close>, in registration order, on the caller's thread": a loop over the
  observers, which an exception of an observer leaves. \<open>j\<close> is the position of the first
  observer of \<open>obs\<close> in the port's list.
\<close>

fun notify_observers :: "observer list \<Rightarrow> nat \<Rightarrow> pyval \<Rightarrow> node \<Rightarrow> exn option \<times> node" where
  "notify_observers [] j data n = (None, n)"
| "notify_observers (ob # obs) j data n =
     (let n' = n\<lparr>notified := notified n @ [(j, data)]\<rparr>
      in case ob data of
           Inl e \<Rightarrow> (Some e, n')
         | Inr _ \<Rightarrow> notify_observers obs (Suc j) data n')"

text \<open>\<open>OutputPort.notify\<close> and \<open>Node.set_value\<close>.\<close>

definition OutputPort_notify :: "observer list \<Rightarrow> pyval \<Rightarrow> node \<Rightarrow> exn option \<times> node" where
  "OutputPort_notify obs data n = notify_observers obs 0 data n"

definition set_value :: "pyval \<Rightarrow> node \<Rightarrow> node" where
  "set_value v n = n\<lparr>node_value := v\<rparr>"

text \<open>\<open>Worker._handle_result\<close>: set the value, then fan out.\<close>

definition handle_result :: "observer list \<Rightarrow> pyval \<Rightarrow> node \<Rightarrow> exn option \<times> node" where
  "handle_result obs result n = OutputPort_notify obs result (set_value result n)"

text \<open>
  \<open>SyncWorker.execute\<close>. \<open>SyncWorker_try\<close> is the body of the \<open>try\<close>: it returns the
  exception that leaves it, if any, with the state reached. Calling \<open>self.target\<close> while it is
  \<open>None\<close> is a \<open>TypeError\<close>. \<open>SyncWorker_execute\<close> adds the handler, which logs twice.
\<close>

definition SyncWorker_try ::
  "target \<Rightarrow> observer list \<Rightarrow> pyval list \<Rightarrow> kwargs \<Rightarrow> node \<Rightarrow> exn option \<times> node" where
  "SyncWorker_try tgt obs args kw n =
     (if isStarted (worker n) then
        (case (if target_set (worker n) then tgt args kw else Inl TypeError) of
           Inl e \<Rightarrow> (Some e, n)
         | Inr result \<Rightarrow> handle_result obs result n)
      else (Some (Exception ''SyncWorker.execute called, even though it is not started.''), n))"

definition SyncWorker_execute ::
  "target \<Rightarrow> observer list \<Rightarrow> pyval list \<Rightarrow> kwargs \<Rightarrow> node \<Rightarrow> exn + node" where
  "SyncWorker_execute tgt obs args kw n =
     (case SyncWorker_try tgt obs args kw n of
        (None, n') \<Rightarrow> Inr n'
      | (Some e, n') \<Rightarrow>
          Inr (n'\<lparr>logged := logged n' @
                 [Error ''SyncWorker failed to execute: %s'' e, Error_traceback e]\<rparr>))"

text \<open>\<open>SyncWorker.start\<close> and \<open>SyncWorker.stop\<close>.\<close>

definition SyncWorker_start :: "node \<Rightarrow> node" where
  "SyncWorker_start n = n\<lparr>worker := SyncWorker True True\<rparr>"

definition SyncWorker_stop :: "node \<Rightarrow> node" where
  "SyncWorker_stop n = n\<lparr>worker := SyncWorker False False\<rparr>"

text \<open>The pool of a started asynchronous worker, and its replacement.\<close>

definition get_pool :: "node \<Rightarrow> pool option" where
  "get_pool n = (case worker n of AsyncWorker N (Some p) \<Rightarrow> Some p | _ \<Rightarrow> None)"

definition set_pool :: "pool \<Rightarrow> node \<Rightarrow> node" where
  "set_pool p n =
     (case worker n of
        AsyncWorker N _ \<Rightarrow> n\<lparr>worker := AsyncWorker N (Some p)\<rparr>
      | SyncWorker _ _ \<Rightarrow> n)"

text \<open>
  \<open>AsyncWorker.execute\<close>: \<open>self.worker_queue.put((args, kwargs))\<close>; before \<open>start\<close> the
  queue is \<open>None\<close> and the attribute access raises.
\<close>

definition AsyncWorker_execute :: "pyval list \<Rightarrow> kwargs \<Rightarrow> node \<Rightarrow> exn + node" where
  "AsyncWorker_execute args kw n =
     (case get_pool n of
        None \<Rightarrow> Inl AttributeError
      | Some p \<Rightarrow> Inr (set_pool (p\<lparr>worker_queue := queue_put (Work args kw) (worker_queue p)\<rparr>) n))"

text \<open>The call \<open>self.worker.execute(*args, **kwargs)\<close>, dispatched on the worker's class.\<close>

definition worker_execute ::
  "target \<Rightarrow> observer list \<Rightarrow> pyval list \<Rightarrow> kwargs \<Rightarrow> node \<Rightarrow> exn + node" where
  "worker_execute tgt obs args kw n =
     (case worker n of
        SyncWorker _ _ \<Rightarrow> SyncWorker_execute tgt obs args kw n
      | AsyncWorker _ _ \<Rightarrow> AsyncWorker_execute args kw n)"

text \<open>
  \<open>Node.handle_input(data, idx, kwarg)\<close>. The assignment to the reactive vector is outside
  the \<open>try\<close>, so its \<open>IndexError\<close> leaves the method; the call of \<open>worker.execute\<close> is
  recorded in \<open>invocations\<close>, and an exception of it is logged twice and dropped.
\<close>

definition handle_input ::
  "target \<Rightarrow> observer list \<Rightarrow> pyval \<Rightarrow> int option \<Rightarrow> string option \<Rightarrow> node \<Rightarrow> exn + node" where
  "handle_input tgt obs data idx kwarg n =
     (case kwarg of
        Some k \<Rightarrow> Inr (n\<lparr>passive_input_values := AList.update k data (passive_input_values n)\<rparr>)
      | None \<Rightarrow>
          (case (case idx of
                   None \<Rightarrow> Inr n
                 | Some i \<Rightarrow>
                     (case list_setitem (reactive_input_values n) i data of
                        Inl e \<Rightarrow> Inl e
                      | Inr vs \<Rightarrow> Inr (n\<lparr>reactive_input_values := vs\<rparr>))) of
             Inl e \<Rightarrow> Inl e
           | Inr n1 \<Rightarrow>
               (let args = reactive_input_values n1; kw = passive_input_values n1;
                    n2 = n1\<lparr>invocations := invocations n1 @ [(args, kw)]\<rparr>
                in case worker_execute tgt obs args kw n2 of
                     Inr n3 \<Rightarrow> Inr n3
                   | Inl e \<Rightarrow>
                       Inr (n2\<lparr>logged := logged n2 @
                              [Error ''Failed to execute worker: %s'' e, Error_traceback e]\<rparr>))))"

section \<open>Input ports\<close>

text \<open>
  \<open>for x in data\<close>: a list yields its elements, a string its characters; \<open>None\<close> and
  numbers are not iterable. \<open>len(payload)\<close> and \<open>payload[i:j]\<close> likewise.
\<close>

definition py_iter :: "pyval \<Rightarrow> exn + pyval list" where
  "py_iter data =
     (case data of
        PyList xs \<Rightarrow> Inr xs
      | PyStr s \<Rightarrow> Inr (map (\<lambda>c. PyStr [c]) s)
      | _ \<Rightarrow> Inl TypeError)"

definition py_len :: "pyval \<Rightarrow> exn + nat" where
  "py_len payload =
     (case payload of
        PyList xs \<Rightarrow> Inr (length xs)
      | PyStr s \<Rightarrow> Inr (length s)
      | _ \<Rightarrow> Inl TypeError)"

text \<open>\<open>xs[i:j]\<close> for \<open>0 \<le> i \<le> j\<close>: the slice is cut at the end of the sequence.\<close>

definition slice :: "'a list \<Rightarrow> nat \<Rightarrow> nat \<Rightarrow> 'a list" where
  "slice xs i j = take (j - i) (drop i xs)"

definition py_slice :: "pyval \<Rightarrow> nat \<Rightarrow> nat \<Rightarrow> pyval" where
  "py_slice payload i j =
     (case payload of
        PyList xs \<Rightarrow> PyList (slice xs i j)
      | PyStr s \<Rightarrow> PyStr (slice s i j)
      | _ \<Rightarrow> PyNone)"

text \<open>
  \<open>range(i, stop, step)\<close> for a positive step, as the loop it stands for. (A step of zero is
  a \<open>ValueError\<close> and a negative step from 0 yields nothing: see \<open>chunks\<close>.)
\<close>

function py_range :: "nat \<Rightarrow> nat \<Rightarrow> nat \<Rightarrow> nat list" where
  "py_range i stop step =
     (if step = 0 \<or> stop \<le> i then [] else i # py_range (i + step) stop step)"
  by pat_completeness auto
termination
  by (relation "measure (\<lambda>(i, stop, step). stop - i)") auto

declare py_range.simps [simp del]

text \<open>
  \<open>BatchArgInputPort.chunks\<close> on a list, for a positive batch size:
  \<open>for i in range(0, len(payload), self.batch_size): yield payload[i:i + self.batch_size]\<close>.
  The docstring speaks of \<open>n\<close>-sized chunks; the last slice is shorter when the length of
  the payload is no multiple of the batch size.
\<close>

definition chunks_list :: "nat \<Rightarrow> 'a list \<Rightarrow> 'a list list" where
  "chunks_list s payload = map (\<lambda>i. slice payload i (i + s)) (py_range 0 (length payload) s)"

text \<open>
  \<open>BatchArgInputPort.chunks\<close> on a value, with every batch size: \<open>len\<close> is evaluated first,
  then \<open>range\<close>, whose step must not be zero.
\<close>

definition chunks :: "int \<Rightarrow> pyval \<Rightarrow> exn + pyval list" where
  "chunks batch_size payload =
     (case py_len payload of
        Inl e \<Rightarrow> Inl e
      | Inr l \<Rightarrow>
          if batch_size = 0 then Inl ValueError
          else if batch_size < 0 then Inr []
          else Inr (map (\<lambda>i. py_slice payload i (i + nat batch_size))
                     (py_range 0 l (nat batch_size))))"

text \<open>A \<open>for\<close> loop of \<open>handle_input\<close> calls with one index; an exception leaves the loop.\<close>

fun handle_inputs ::
  "target \<Rightarrow> observer list \<Rightarrow> pyval list \<Rightarrow> int option \<Rightarrow> node \<Rightarrow> exn + node" where
  "handle_inputs tgt obs [] idx n = Inr n"
| "handle_inputs tgt obs (x # xs) idx n =
     (case handle_input tgt obs x idx None n of
        Inl e \<Rightarrow> Inl e
      | Inr n' \<Rightarrow> handle_inputs tgt obs xs idx n')"

text \<open>The \<open>notify\<close> method of each class of input port, on the node the port belongs to.\<close>

fun port_notify ::
  "target \<Rightarrow> observer list \<Rightarrow> input_port \<Rightarrow> pyval \<Rightarrow> node \<Rightarrow> exn + node" where
  "port_notify tgt obs InputPort data n = handle_input tgt obs data None None n"
| "port_notify tgt obs (ArgInputPort idx) data n = handle_input tgt obs data idx None n"
| "port_notify tgt obs (MappingArgInputPort idx) data n =
     (case py_iter data of
        Inl e \<Rightarrow> Inl e
      | Inr xs \<Rightarrow> handle_inputs tgt obs xs idx n)"
| "port_notify tgt obs (KwargInputPort kwarg) data n = handle_input tgt obs data None (Some kwarg) n"
| "port_notify tgt obs (BatchArgInputPort batch_size idx) data n =
     (case chunks batch_size data of
        Inl e \<Rightarrow> Inl e
      | Inr batches \<Rightarrow> handle_inputs tgt obs batches idx n)"

text \<open>\<open>Node.notify(data, port_idx)\<close>.\<close>

definition Node_notify ::
  "target \<Rightarrow> observer list \<Rightarrow> pyval \<Rightarrow> int \<Rightarrow> node \<Rightarrow> exn + node" where
  "Node_notify tgt obs data port_idx n =
     (if data = PyNone then handle_input tgt obs data None None n
      else case list_getitem (reactive_input_ports n) port_idx of
             Inl e \<Rightarrow> Inl e
           | Inr port \<Rightarrow> port_notify tgt obs port data n)"

text \<open>
  What a trigger passes to the worker: \<open>handle_input(x, idx)\<close> calls it with the reactive
  vector in which position \<open>idx\<close> holds \<open>x\<close> (the vector as it is when \<open>idx\<close> is
  \<open>None\<close>). \<open>valid_idx\<close>: the index is \<open>None\<close> or a position of the reactive vector.
\<close>

definition trigger_args :: "int option \<Rightarrow> pyval list \<Rightarrow> pyval \<Rightarrow> pyval list" where
  "trigger_args idx vs x = (case idx of None \<Rightarrow> vs | Some i \<Rightarrow> vs[nat i := x])"

definition valid_idx :: "int option \<Rightarrow> node \<Rightarrow> bool" where
  "valid_idx idx n =
     (case idx of None \<Rightarrow> True | Some i \<Rightarrow> 0 \<le> i \<and> i < int (length (reactive_input_values n)))"

section \<open>Construction of a node\<close>

text \<open>
  \<open>FunctionInfo\<close> (module \<open>colony.utils.function_info\<close>) is not among the sources; what it
  reports about a function is a parameter of the model: \<open>num_args\<close>, the number of its
  positional parameters, and \<open>kwargs\<close>, its keyword parameters with their defaults.
\<close>

record function_info =
  num_args :: nat
  kwargs :: "(string \<times> pyval) list"

text \<open>
  The argument \<open>reactive_input_ports\<close> of \<open>Node.__init__\<close>: a list of ports, one port object,
  or anything else (\<open>None\<close> by default).
\<close>

datatype ports_arg = NoPorts | PortList "input_port list" | SinglePort input_port

text \<open>\<open>isinstance(port, ArgInputPort)\<close>: the class and its two subclasses.\<close>

fun is_ArgInputPort :: "input_port \<Rightarrow> bool" where
  "is_ArgInputPort (ArgInputPort idx) = True"
| "is_ArgInputPort (MappingArgInputPort idx) = True"
| "is_ArgInputPort (BatchArgInputPort batch_size idx) = True"
| "is_ArgInputPort port = False"

text \<open>\<open>port.idx = i\<close>.\<close>

fun set_idx :: "int \<Rightarrow> input_port \<Rightarrow> input_port" where
  "set_idx i (ArgInputPort idx) = ArgInputPort (Some i)"
| "set_idx i (MappingArgInputPort idx) = MappingArgInputPort (Some i)"
| "set_idx i (BatchArgInputPort batch_size idx) = BatchArgInputPort batch_size (Some i)"
| "set_idx i port = port"

text \<open>
  The number of reactive ports and the \<open>FunctionInfo\<close> in use: of \<open>target_func\<close> when it is
  given alone, of \<open>target_class.execute\<close> (one less, for \<open>self\<close>) when a class is given.
\<close>

definition num_reactive_input_ports ::
  "function_info option \<Rightarrow> function_info option \<Rightarrow> exn + int \<times> function_info" where
  "num_reactive_input_ports target_func target_class =
     (case (target_func, target_class) of
        (Some fi, None) \<Rightarrow> Inr (int (num_args fi), fi)
      | (_, Some ci) \<Rightarrow> Inr (int (num_args ci) - 1, ci)
      | (None, None) \<Rightarrow> Inl ValueError)"

text \<open>\<open>[ArgInputPort(i, self) for i in range(k)]\<close>; a negative \<open>k\<close> gives no port.\<close>

definition default_ports :: "int \<Rightarrow> input_port list" where
  "default_ports k = map (\<lambda>i. ArgInputPort (Some (int i))) [0..<nat k]"

definition build_ports :: "ports_arg \<Rightarrow> int \<Rightarrow> exn + input_port list" where
  "build_ports rip k =
     (case rip of
        PortList ps \<Rightarrow> if int (length ps) = k then Inr ps else Inl AssertionError
      | SinglePort p \<Rightarrow> if is_ArgInputPort p then Inr [set_idx 0 p] else Inr (default_ports k)
      | NoPorts \<Rightarrow> Inr (default_ports k))"

text \<open>
  \<open>if default_reactive_input_values: ... else: [None] * len(self.reactive_input_ports)\<close>:
  a non-empty list of defaults is taken as it is.
\<close>

definition initial_values :: "pyval list option \<Rightarrow> input_port list \<Rightarrow> pyval list" where
  "initial_values defaults ports =
     (case defaults of
        Some (d # ds) \<Rightarrow> d # ds
      | _ \<Rightarrow> replicate (length ports) PyNone)"

text \<open>
  Wiring. Upstream nodes are named by numbers; a registration \<open>(u, p)\<close> stands for
  \<open>u.output_port.register_observer(p)\<close>. Positional upstream nodes take the reactive ports in
  order (\<open>IndexError\<close> when there are more nodes than ports), keyword ones the passive port of
  their name (\<open>KeyError\<close> when there is none).
\<close>

fun register_args :: "nat list \<Rightarrow> input_port list \<Rightarrow> exn + (nat \<times> input_port) list" where
  "register_args [] ports = Inr []"
| "register_args (u # us) [] = Inl IndexError"
| "register_args (u # us) (p # ports) =
     (case register_args us ports of
        Inl e \<Rightarrow> Inl e
      | Inr regs \<Rightarrow> Inr ((u, p) # regs))"

fun register_kwargs ::
  "(string \<times> nat) list \<Rightarrow> (string \<times> input_port) list \<Rightarrow> exn + (nat \<times> input_port) list" where
  "register_kwargs [] ports = Inr []"
| "register_kwargs ((k, u) # kus) ports =
     (case map_of ports k of
        None \<Rightarrow> Inl KeyError
      | Some p \<Rightarrow>
          (case register_kwargs kus ports of
             Inl e \<Rightarrow> Inl e
           | Inr regs \<Rightarrow> Inr ((u, p) # regs)))"

text \<open>
  \<open>Node._build_node_worker\<close>: a \<open>SyncWorker\<close> unless a pool size stands for
  \<open>node_worker_class=AsyncWorker\<close>; both are built unstarted.
\<close>

definition build_node_worker :: "nat option \<Rightarrow> worker" where
  "build_node_worker nthreads =
     (case nthreads of
        None \<Rightarrow> SyncWorker False False
      | Some n \<Rightarrow> AsyncWorker n None)"

text \<open>
  \<open>Node.__init__\<close>, in the order of its statements: the arity, the reactive ports, the
  reactive values, the positional wiring, the passive ports and values from the keyword
  parameters, the keyword wiring, the value and the worker. It returns the node and the
  registrations it made, or the exception that aborts the construction.
\<close>

definition Node_init ::
  "function_info option \<Rightarrow> function_info option \<Rightarrow> ports_arg \<Rightarrow> pyval list option \<Rightarrow>
   nat list \<Rightarrow> (string \<times> nat) list \<Rightarrow> nat option \<Rightarrow> exn + node \<times> (nat \<times> input_port) list" where
  "Node_init target_func target_class rip defaults node_args node_kwargs nthreads =
     (case num_reactive_input_ports target_func target_class of
        Inl e \<Rightarrow> Inl e
      | Inr (k, target_info) \<Rightarrow>
     (case build_ports rip k of
        Inl e \<Rightarrow> Inl e
      | Inr ports \<Rightarrow>
     (case register_args node_args ports of
        Inl e \<Rightarrow> Inl e
      | Inr regs1 \<Rightarrow>
     (let pports = fold (\<lambda>(name, d). AList.update name (KwargInputPort name)) (kwargs target_info) [];
          pvalues = fold (\<lambda>(name, d). AList.update name d) (kwargs target_info) []
      in case register_kwargs node_kwargs pports of
           Inl e \<Rightarrow> Inl e
         | Inr regs2 \<Rightarrow>
             Inr (\<lparr>reactive_input_ports = ports,
                   reactive_input_values = initial_values defaults ports,
                   passive_input_ports = pports,
                   passive_input_values = pvalues,
                   node_value = PyNone,
                   worker = build_node_worker nthreads,
                   notified = [],
                   logged = [],
                   invocations = []\<rparr>,
                  regs1 @ regs2)))))"

section \<open>The asynchronous worker and its threads\<close>

text \<open>
  \<open>AsyncWorker.start\<close>: two fresh queues, \<open>num_threads\<close> started threads running
  \<open>_worker\<close> (each has resolved its target and stands before its first \<open>get\<close>) and one
  started thread running \<open>_result_handler\<close>.
\<close>

definition AsyncWorker_start :: "node \<Rightarrow> node" where
  "AsyncWorker_start n =
     (case worker n of
        AsyncWorker N _ \<Rightarrow>
          n\<lparr>worker := AsyncWorker N
               (Some \<lparr>worker_queue = new_queue, result_queue = new_queue,
                      worker_threads = replicate N W_get, result_thread = R_get\<rparr>)\<rparr>
      | SyncWorker _ _ \<Rightarrow> n)"

text \<open>
  One step of the thread at position \<open>i\<close> of \<open>worker_threads\<close>, running
  \<open>AsyncWorker._worker\<close>; \<open>None\<close> when the thread cannot move (it waits in \<open>get\<close> on an
  empty queue, or it has ended). The steps are the operations on the shared queues:
  \<^item> \<open>payload = self.worker_queue.get()\<close>, a pill or a call;
  \<^item> for a call, \<open>target(*args, **kwargs)\<close> and then either the two log lines of the
    handler, after which the loop goes on with the next \<open>get\<close>, or
    \<open>self.result_queue.put(result)\<close>;
  \<^item> \<open>self.worker_queue.task_done()\<close> of the \<open>else\<close> branch, after a result was put;
  \<^item> \<open>self.worker_queue.task_done()\<close> and \<open>return\<close>, after a pill.
\<close>

definition worker_step :: "target \<Rightarrow> nat \<Rightarrow> node \<Rightarrow> node option" where
  "worker_step tgt i n =
     (case get_pool n of
        None \<Rightarrow> None
      | Some p \<Rightarrow>
          if length (worker_threads p) \<le> i then None
          else
            (case worker_threads p ! i of
               W_get \<Rightarrow>
                 (case items (worker_queue p) of
                    [] \<Rightarrow> None
                  | Work_pill # rest \<Rightarrow>
                      Some (set_pool
                        (p\<lparr>worker_queue := (worker_queue p)\<lparr>items := rest\<rparr>,
                           worker_threads := (worker_threads p)[i := W_pill_ack]\<rparr>) n)
                  | Work args kw # rest \<Rightarrow>
                      Some (set_pool
                        (p\<lparr>worker_queue := (worker_queue p)\<lparr>items := rest\<rparr>,
                           worker_threads := (worker_threads p)[i := W_run args kw]\<rparr>) n))
             | W_run args kw \<Rightarrow>
                 (case tgt args kw of
                    Inl e \<Rightarrow>
                      Some (set_pool (p\<lparr>worker_threads := (worker_threads p)[i := W_get]\<rparr>)
                        (n\<lparr>logged := logged n @
                             [Error ''AsyncWorker failed to execute target %s:'' e,
                              Error_traceback e]\<rparr>))
                  | Inr result \<Rightarrow>
                      Some (set_pool
                        (p\<lparr>result_queue := queue_put (Result result) (result_queue p),
                           worker_threads := (worker_threads p)[i := W_ack]\<rparr>) n))
             | W_ack \<Rightarrow>
                 (case task_done (worker_queue p) of
                    None \<Rightarrow>
                      Some (set_pool (p\<lparr>worker_threads := (worker_threads p)[i := W_dead]\<rparr>) n)
                  | Some q \<Rightarrow>
                      Some (set_pool
                        (p\<lparr>worker_queue := q,
                           worker_threads := (worker_threads p)[i := W_get]\<rparr>) n))
             | W_pill_ack \<Rightarrow>
                 (case task_done (worker_queue p) of
                    None \<Rightarrow>
                      Some (set_pool (p\<lparr>worker_threads := (worker_threads p)[i := W_dead]\<rparr>) n)
                  | Some q \<Rightarrow>
                      Some (set_pool
                        (p\<lparr>worker_queue := q,
                           worker_threads := (worker_threads p)[i := W_done]\<rparr>) n))
             | W_done \<Rightarrow> None
             | W_dead \<Rightarrow> None))"

text \<open>
  One step of the thread running \<open>AsyncWorker._result_handler\<close>: the \<open>get\<close>; for a result,
  \<open>self._handle_result(result)\<close>, whose exception (raised by an observer) is caught nowhere
  and ends the thread; the \<open>task_done\<close> after it; the \<open>task_done\<close> and \<open>return\<close> after a
  pill.
\<close>

definition result_step :: "observer list \<Rightarrow> node \<Rightarrow> node option" where
  "result_step obs n =
     (case get_pool n of
        None \<Rightarrow> None
      | Some p \<Rightarrow>
          (case result_thread p of
             R_get \<Rightarrow>
               (case items (result_queue p) of
                  [] \<Rightarrow> None
                | Result_pill # rest \<Rightarrow>
                    Some (set_pool
                      (p\<lparr>result_queue := (result_queue p)\<lparr>items := rest\<rparr>,
                         result_thread := R_pill_ack\<rparr>) n)
                | Result result # rest \<Rightarrow>
                    Some (set_pool
                      (p\<lparr>result_queue := (result_queue p)\<lparr>items := rest\<rparr>,
                         result_thread := R_run result\<rparr>) n))
           | R_run result \<Rightarrow>
               (case handle_result obs result n of
                  (Some e, n') \<Rightarrow> Some (set_pool (p\<lparr>result_thread := R_dead\<rparr>) n')
                | (None, n') \<Rightarrow> Some (set_pool (p\<lparr>result_thread := R_ack\<rparr>) n'))
           | R_ack \<Rightarrow>
               (case task_done (result_queue p) of
                  None \<Rightarrow> Some (set_pool (p\<lparr>result_thread := R_dead\<rparr>) n)
                | Some q \<Rightarrow> Some (set_pool (p\<lparr>result_queue := q, result_thread := R_get\<rparr>) n))
           | R_pill_ack \<Rightarrow>
               (case task_done (result_queue p) of
                  None \<Rightarrow> Some (set_pool (p\<lparr>result_thread := R_dead\<rparr>) n)
                | Some q \<Rightarrow> Some (set_pool (p\<lparr>result_queue := q, result_thread := R_done\<rparr>) n))
           | R_done \<Rightarrow> None
           | R_dead \<Rightarrow> None))"

text \<open>
  What the thread that owns the worker does to it, one queue or thread operation at a time:
  \<open>execute(*args, **kwargs)\<close>; the statements of \<open>stop\<close>, that is
  \<open>self.worker_queue.put(PoisonPill())\<close>, \<open>thread.join()\<close> for the thread at a position,
  \<open>self.result_queue.put(PoisonPill())\<close> and \<open>self.result_thread.join()\<close>; the statements
  of \<open>join\<close>, that is \<open>self.worker_queue.join()\<close> and \<open>self.result_queue.join()\<close>.
\<close>

datatype op =
    Execute "pyval list" kwargs
  | Put_pill
  | Join_thread nat
  | Put_result_pill
  | Join_result_thread
  | Join_worker_queue
  | Join_result_queue

text \<open>
  \<open>AsyncWorker.stop\<close> for a pool of \<open>N\<close> threads, as the sequence of its operations: a
  pill for each worker thread, a join of each worker thread, then the pill for the result
  queue and the join of the result thread. \<open>AsyncWorker.join\<close> likewise.
\<close>

definition AsyncWorker_stop :: "nat \<Rightarrow> op list" where
  "AsyncWorker_stop N =
     replicate N Put_pill @ map Join_thread [0..<N] @ [Put_result_pill, Join_result_thread]"

definition AsyncWorker_join :: "op list" where
  "AsyncWorker_join = [Join_worker_queue, Join_result_queue]"

text \<open>
  One operation of the owner; \<open>None\<close> while it blocks (\<open>Thread.join\<close> returns when the
  thread has ended, by return or by an exception; \<open>Queue.join\<close> when no task is
  unfinished), and when \<open>execute\<close> raises.
\<close>

fun do_op :: "op \<Rightarrow> node \<Rightarrow> node option" where
  "do_op (Execute args kw) n =
     (case AsyncWorker_execute args kw n of Inl e \<Rightarrow> None | Inr n' \<Rightarrow> Some n')"
| "do_op Put_pill n =
     (case get_pool n of
        None \<Rightarrow> None
      | Some p \<Rightarrow> Some (set_pool (p\<lparr>worker_queue := queue_put Work_pill (worker_queue p)\<rparr>) n))"
| "do_op (Join_thread i) n =
     (case get_pool n of
        None \<Rightarrow> None
      | Some p \<Rightarrow>
          if i < length (worker_threads p) \<and>
             (worker_threads p ! i = W_done \<or> worker_threads p ! i = W_dead)
          then Some n else None)"
| "do_op Put_result_pill n =
     (case get_pool n of
        None \<Rightarrow> None
      | Some p \<Rightarrow> Some (set_pool (p\<lparr>result_queue := queue_put Result_pill (result_queue p)\<rparr>) n))"
| "do_op Join_result_thread n =
     (case get_pool n of
        None \<Rightarrow> None
      | Some p \<Rightarrow>
          if result_thread p = R_done \<or> result_thread p = R_dead then Some n else None)"
| "do_op Join_worker_queue n =
     (case get_pool n of
        None \<Rightarrow> None
      | Some p \<Rightarrow> if unfinished_tasks (worker_queue p) = 0 then Some n else None)"
| "do_op Join_result_queue n =
     (case get_pool n of
        None \<Rightarrow> None
      | Some p \<Rightarrow> if unfinished_tasks (result_queue p) = 0 then Some n else None)"

text \<open>
  The whole system: the operations the owner still has to do, and the node. The threads
  interleave at the operations on the queues, each of which is atomic (the queues are
  thread-safe). A schedule names, step by step, the thread that moves; \<open>run\<close> follows a
  schedule and is \<open>None\<close> when it names a thread that cannot move. The states the system
  can reach are the results of \<open>run\<close> over all schedules.
\<close>

datatype thread = Owner | Worker_thread nat | Result_thread

fun sys_step :: "target \<Rightarrow> observer list \<Rightarrow> thread \<Rightarrow> op list \<times> node \<Rightarrow> (op list \<times> node) option" where
  "sys_step tgt obs Owner (prog, n) =
     (case prog of
        [] \<Rightarrow> None
      | c # rest \<Rightarrow> (case do_op c n of None \<Rightarrow> None | Some n' \<Rightarrow> Some (rest, n')))"
| "sys_step tgt obs (Worker_thread i) (prog, n) =
     (case worker_step tgt i n of None \<Rightarrow> None | Some n' \<Rightarrow> Some (prog, n'))"
| "sys_step tgt obs Result_thread (prog, n) =
     (case result_step obs n of None \<Rightarrow> None | Some n' \<Rightarrow> Some (prog, n'))"

fun run ::
  "target \<Rightarrow> observer list \<Rightarrow> thread list \<Rightarrow> op list \<times> node \<Rightarrow> (op list \<times> node) option" where
  "run tgt obs [] s = Some s"
| "run tgt obs (t # ts) s =
     (case sys_step tgt obs t s of None \<Rightarrow> None | Some s' \<Rightarrow> run tgt obs ts s')"

text \<open>The owner's calls \<open>execute(*args, **kwargs)\<close> for a list of calls, in order.\<close>

definition submit :: "(pyval list \<times> kwargs) list \<Rightarrow> op list" where
  "submit cs = map (\<lambda>(args, kw). Execute args kw) cs"


section \<open>The graph\<close>

record graph =
  name :: string
  nodes :: "node list"
  is_alive :: bool

text \<open>\<open>isinstance(node.worker, AsyncWorker)\<close> and \<open>isinstance(node.worker, SyncWorker)\<close>.\<close>

definition is_async :: "node \<Rightarrow> bool" where
  "is_async n = (case worker n of AsyncWorker _ _ \<Rightarrow> True | SyncWorker _ _ \<Rightarrow> False)"

definition is_sync :: "node \<Rightarrow> bool" where
  "is_sync n = (case worker n of SyncWorker _ _ \<Rightarrow> True | AsyncWorker _ _ \<Rightarrow> False)"

text \<open>
  \<open>Node.stop\<close> calls the worker's \<open>stop\<close>. \<open>SyncWorker.stop\<close> forgets the target.
  \<open>AsyncWorker.stop\<close> on a worker that was never started iterates over
  \<open>self.worker_threads = None\<close>, a \<open>TypeError\<close>. On a started one the caller is the owner
  of the pool and runs the statements of \<open>stop\<close>, one pill and one join for each thread of
  \<open>self.worker_threads\<close>, while the threads of the pool run theirs: \<open>ts\<close> is the schedule
  of the owner and these threads from the moment \<open>Graph.stop\<close> is called until this \<open>stop\<close>
  returns, and the node that \<open>stop\<close> returns is the one the schedule leaves, queues and
  threads included. The result is \<open>None\<close> when \<open>ts\<close> is no such schedule: it names a thread
  that cannot move, or it ends before \<open>stop\<close> has returned.
\<close>

definition Node_stop :: "target \<Rightarrow> observer list \<Rightarrow> thread list \<Rightarrow> node \<Rightarrow> (exn + node) option" where
  "Node_stop tgt obs ts n =
     (case worker n of
        SyncWorker _ _ \<Rightarrow> Some (Inr (SyncWorker_stop n))
      | AsyncWorker _ pl \<Rightarrow>
          (case pl of
             None \<Rightarrow> Some (Inl TypeError)
           | Some p \<Rightarrow>
               (case run tgt obs ts (AsyncWorker_stop (length (worker_threads p)), n) of
                  None \<Rightarrow> None
                | Some (prog, n') \<Rightarrow> if prog = [] then Some (Inr n') else None)))"

text \<open>
  What \<open>Graph.stop\<close> does, in order: \<open>Log_info fmt arg\<close> is \<open>self.logger.info(fmt, arg)\<close>;
  \<open>Stop_called i\<close> is the call of \<open>node.stop()\<close> for the node at position \<open>i\<close> of
  \<open>self.nodes\<close>, \<open>Stop_returned i\<close> its return and \<open>Stop_raised i e\<close> its exception.
\<close>

datatype graph_event =
    Log_info string string
  | Set_not_alive
  | Stop_called nat
  | Stop_returned nat
  | Stop_raised nat exn

text \<open>
  One loop of \<open>Graph.stop\<close>: \<open>for node in self.nodes: if isinstance(...): node.stop()\<close>,
  from position \<open>i\<close> on. The target, the observers of the output port and the schedule of
  the node at a position are given by position. The result is the exception that left the
  loop, if any, the nodes as the loop leaves them, and what it did. The pools of different
  nodes share nothing (what an observer does to its own node is not followed), so their
  steps commute and each pool is followed on its own, up to the return of its \<open>stop\<close>.
\<close>

fun stop_where ::
  "(node \<Rightarrow> bool) \<Rightarrow> (nat \<Rightarrow> target) \<Rightarrow> (nat \<Rightarrow> observer list) \<Rightarrow> (nat \<Rightarrow> thread list) \<Rightarrow>
   node list \<Rightarrow> nat \<Rightarrow> (exn option \<times> node list \<times> graph_event list) option" where
  "stop_where P tgts obss scheds [] i = Some (None, [], [])"
| "stop_where P tgts obss scheds (n # ns) i =
     (if P n then
        (case Node_stop (tgts i) (obss i) (scheds i) n of
           None \<Rightarrow> None
         | Some (Inl e) \<Rightarrow> Some (Some e, n # ns, [Stop_called i, Stop_raised i e])
         | Some (Inr n') \<Rightarrow>
             (case stop_where P tgts obss scheds ns (Suc i) of
                None \<Rightarrow> None
              | Some (e, ns', evs) \<Rightarrow> Some (e, n' # ns', Stop_called i # Stop_returned i # evs)))
      else
        (case stop_where P tgts obss scheds ns (Suc i) of
           None \<Rightarrow> None
         | Some (e, ns', evs) \<Rightarrow> Some (e, n # ns', evs)))"

text \<open>
  \<open>Graph.stop\<close>: the log line, \<open>self.is_alive = False\<close>, the loop over the nodes with an
  asynchronous worker, then the loop over the nodes with a synchronous worker. An exception
  of the first loop leaves \<open>stop\<close>, and the second loop is not run.
\<close>

definition stop_message :: string where
  "stop_message = ''Graph '' @ [CHR 0x22] @ ''%s'' @ [CHR 0x22] @ '' received stop signal''"

definition Graph_stop ::
  "(nat \<Rightarrow> target) \<Rightarrow> (nat \<Rightarrow> observer list) \<Rightarrow> (nat \<Rightarrow> thread list) \<Rightarrow> graph \<Rightarrow>
   (exn option \<times> graph \<times> graph_event list) option" where
  "Graph_stop tgts obss scheds g =
     (case stop_where is_async tgts obss scheds (nodes g) 0 of
        None \<Rightarrow> None
      | Some (Some e, ns1, evs1) \<Rightarrow>
          Some (Some e, g\<lparr>nodes := ns1, is_alive := False\<rparr>,
                [Log_info stop_message (name g), Set_not_alive] @ evs1)
      | Some (None, ns1, evs1) \<Rightarrow>
          (case stop_where is_sync tgts obss scheds ns1 0 of
             None \<Rightarrow> None
           | Some (e, ns2, evs2) \<Rightarrow>
               Some (e, g\<lparr>nodes := ns2, is_alive := False\<rparr>,
                     [Log_info stop_message (name g), Set_not_alive] @ evs1 @ evs2)))"

text \<open>The calls of \<open>stop\<close> for the nodes of \<open>ns\<close> that satisfy \<open>P\<close>, in list order.\<close>

definition stops_of :: "(node \<Rightarrow> bool) \<Rightarrow> node list \<Rightarrow> graph_event list" where
  "stops_of P ns =
     concat (map (\<lambda>i. [Stop_called i, Stop_returned i]) (filter (\<lambda>i. P (ns ! i)) [0..<length ns]))"


section \<open>The steps as a relation\<close>

text \<open>
  For the proofs, the same steps once more as a relation on what the invariants talk about:
  the operations left to the owner, the pool, the node's value and the calls of observers
  made so far. \<open>fan_calls\<close> is the fan-out of \<open>notify_observers\<close> seen from outside: the
  exception that ends it, if any, and the calls it makes.
\<close>

fun fan_calls :: "observer list \<Rightarrow> nat \<Rightarrow> pyval \<Rightarrow> exn option \<times> (nat \<times> pyval) list" where
  "fan_calls [] j data = (None, [])"
| "fan_calls (ob # obs) j data =
     (case ob data of
        Inl e \<Rightarrow> (Some e, [(j, data)])
      | Inr _ \<Rightarrow> (case fan_calls obs (Suc j) data of (res, calls) \<Rightarrow> (res, (j, data) # calls)))"

type_synonym config = "op list \<times> pool \<times> pyval \<times> (nat \<times> pyval) list"

definition config_of :: "op list \<times> node \<Rightarrow> config" where
  "config_of s = (fst s, the (get_pool (snd s)), node_value (snd s), notified (snd s))"

inductive moves :: "target \<Rightarrow> observer list \<Rightarrow> config \<Rightarrow> config \<Rightarrow> bool"
  for tgt :: target and obs :: "observer list" where
  execute:
    "moves tgt obs (Execute args kw # prog, p, v, out)
       (prog, p\<lparr>worker_queue := queue_put (Work args kw) (worker_queue p)\<rparr>, v, out)"
| put_pill:
    "moves tgt obs (Put_pill # prog, p, v, out)
       (prog, p\<lparr>worker_queue := queue_put Work_pill (worker_queue p)\<rparr>, v, out)"
| join_thread:
    "i < length (worker_threads p) \<Longrightarrow>
     worker_threads p ! i = W_done \<or> worker_threads p ! i = W_dead \<Longrightarrow>
     moves tgt obs (Join_thread i # prog, p, v, out) (prog, p, v, out)"
| put_result_pill:
    "moves tgt obs (Put_result_pill # prog, p, v, out)
       (prog, p\<lparr>result_queue := queue_put Result_pill (result_queue p)\<rparr>, v, out)"
| join_result_thread:
    "result_thread p = R_done \<or> result_thread p = R_dead \<Longrightarrow>
     moves tgt obs (Join_result_thread # prog, p, v, out) (prog, p, v, out)"
| join_worker_queue:
    "unfinished_tasks (worker_queue p) = 0 \<Longrightarrow>
     moves tgt obs (Join_worker_queue # prog, p, v, out) (prog, p, v, out)"
| join_result_queue:
    "unfinished_tasks (result_queue p) = 0 \<Longrightarrow>
     moves tgt obs (Join_result_queue # prog, p, v, out) (prog, p, v, out)"
| get_pill:
    "i < length (worker_threads p) \<Longrightarrow> worker_threads p ! i = W_get \<Longrightarrow>
     items (worker_queue p) = Work_pill # rest \<Longrightarrow>
     moves tgt obs (prog, p, v, out)
       (prog, p\<lparr>worker_queue := (worker_queue p)\<lparr>items := rest\<rparr>,
                worker_threads := (worker_threads p)[i := W_pill_ack]\<rparr>, v, out)"
| get_work:
    "i < length (worker_threads p) \<Longrightarrow> worker_threads p ! i = W_get \<Longrightarrow>
     items (worker_queue p) = Work args kw # rest \<Longrightarrow>
     moves tgt obs (prog, p, v, out)
       (prog, p\<lparr>worker_queue := (worker_queue p)\<lparr>items := rest\<rparr>,
                worker_threads := (worker_threads p)[i := W_run args kw]\<rparr>, v, out)"
| run_raises:
    "i < length (worker_threads p) \<Longrightarrow> worker_threads p ! i = W_run args kw \<Longrightarrow>
     tgt args kw = Inl e \<Longrightarrow>
     moves tgt obs (prog, p, v, out)
       (prog, p\<lparr>worker_threads := (worker_threads p)[i := W_get]\<rparr>, v, out)"
| run_returns:
    "i < length (worker_threads p) \<Longrightarrow> worker_threads p ! i = W_run args kw \<Longrightarrow>
     tgt args kw = Inr r \<Longrightarrow>
     moves tgt obs (prog, p, v, out)
       (prog, p\<lparr>result_queue := queue_put (Result r) (result_queue p),
                worker_threads := (worker_threads p)[i := W_ack]\<rparr>, v, out)"
| ack:
    "i < length (worker_threads p) \<Longrightarrow> worker_threads p ! i = W_ack \<Longrightarrow>
     task_done (worker_queue p) = Some q \<Longrightarrow>
     moves tgt obs (prog, p, v, out)
       (prog, p\<lparr>worker_queue := q, worker_threads := (worker_threads p)[i := W_get]\<rparr>, v, out)"
| pill_ack:
    "i < length (worker_threads p) \<Longrightarrow> worker_threads p ! i = W_pill_ack \<Longrightarrow>
     task_done (worker_queue p) = Some q \<Longrightarrow>
     moves tgt obs (prog, p, v, out)
       (prog, p\<lparr>worker_queue := q, worker_threads := (worker_threads p)[i := W_done]\<rparr>, v, out)"
| ack_raises:
    "i < length (worker_threads p) \<Longrightarrow>
     worker_threads p ! i = W_ack \<or> worker_threads p ! i = W_pill_ack \<Longrightarrow>
     task_done (worker_queue p) = None \<Longrightarrow>
     moves tgt obs (prog, p, v, out)
       (prog, p\<lparr>worker_threads := (worker_threads p)[i := W_dead]\<rparr>, v, out)"
| result_get_pill:
    "result_thread p = R_get \<Longrightarrow> items (result_queue p) = Result_pill # rest \<Longrightarrow>
     moves tgt obs (prog, p, v, out)
       (prog, p\<lparr>result_queue := (result_queue p)\<lparr>items := rest\<rparr>,
                result_thread := R_pill_ack\<rparr>, v, out)"
| result_get:
    "result_thread p = R_get \<Longrightarrow> items (result_queue p) = Result r # rest \<Longrightarrow>
     moves tgt obs (prog, p, v, out)
       (prog, p\<lparr>result_queue := (result_queue p)\<lparr>items := rest\<rparr>,
                result_thread := R_run r\<rparr>, v, out)"
| handle_returns:
    "result_thread p = R_run r \<Longrightarrow> fan_calls obs 0 r = (None, calls) \<Longrightarrow>
     moves tgt obs (prog, p, v, out) (prog, p\<lparr>result_thread := R_ack\<rparr>, r, out @ calls)"
| handle_raises:
    "result_thread p = R_run r \<Longrightarrow> fan_calls obs 0 r = (Some e, calls) \<Longrightarrow>
     moves tgt obs (prog, p, v, out) (prog, p\<lparr>result_thread := R_dead\<rparr>, r, out @ calls)"
| result_ack:
    "result_thread p = R_ack \<Longrightarrow> task_done (result_queue p) = Some q \<Longrightarrow>
     moves tgt obs (prog, p, v, out)
       (prog, p\<lparr>result_queue := q, result_thread := R_get\<rparr>, v, out)"
| result_pill_ack:
    "result_thread p = R_pill_ack \<Longrightarrow> task_done (result_queue p) = Some q \<Longrightarrow>
     moves tgt obs (prog, p, v, out)
       (prog, p\<lparr>result_queue := q, result_thread := R_done\<rparr>, v, out)"
| result_ack_raises:
    "result_thread p = R_ack \<or> result_thread p = R_pill_ack \<Longrightarrow>
     task_done (result_queue p) = None \<Longrightarrow>
     moves tgt obs (prog, p, v, out) (prog, p\<lparr>result_thread := R_dead\<rparr>, v, out)"


section \<open>Invariants of the pool\<close>

text \<open>
  The owner's program is ordered: calls of \<open>execute\<close> first, then the statements of
  \<open>join\<close>, then those of \<open>stop\<close> in their order.
\<close>

fun op_rank :: "op \<Rightarrow> nat" where
  "op_rank (Execute args kw) = 0"
| "op_rank Join_worker_queue = 1"
| "op_rank Join_result_queue = 2"
| "op_rank Put_pill = 3"
| "op_rank (Join_thread i) = 4"
| "op_rank Put_result_pill = 5"
| "op_rank Join_result_thread = 6"

text \<open>
  The calls not yet executed by the owner, and those waiting in the work queue; the results
  waiting in the result queue and the one the result thread holds.
\<close>

fun pending_calls :: "op list \<Rightarrow> (pyval list \<times> kwargs) list" where
  "pending_calls [] = []"
| "pending_calls (Execute args kw # prog) = (args, kw) # pending_calls prog"
| "pending_calls (c # prog) = pending_calls prog"

fun queued_calls :: "work_item list \<Rightarrow> (pyval list \<times> kwargs) list" where
  "queued_calls [] = []"
| "queued_calls (Work args kw # q) = (args, kw) # queued_calls q"
| "queued_calls (Work_pill # q) = queued_calls q"

fun queued_results :: "result_item list \<Rightarrow> pyval list" where
  "queued_results [] = []"
| "queued_results (Result r # q) = r # queued_results q"
| "queued_results (Result_pill # q) = queued_results q"

fun handled_result :: "result_pc \<Rightarrow> pyval list" where
  "handled_result (R_run r) = [r]"
| "handled_result w = []"

text \<open>
  \<open>results_of\<close>: the results of the calls whose target returns, in order; \<open>failures\<close>: the
  number of calls whose target raises. \<open>running_results\<close>: the result a worker thread is
  about to put.
\<close>

fun results_of :: "target \<Rightarrow> (pyval list \<times> kwargs) list \<Rightarrow> pyval list" where
  "results_of tgt [] = []"
| "results_of tgt ((args, kw) # cs) =
     (case tgt args kw of Inl e \<Rightarrow> results_of tgt cs | Inr r \<Rightarrow> r # results_of tgt cs)"

fun failures :: "target \<Rightarrow> (pyval list \<times> kwargs) list \<Rightarrow> nat" where
  "failures tgt [] = 0"
| "failures tgt ((args, kw) # cs) =
     (case tgt args kw of Inl e \<Rightarrow> Suc (failures tgt cs) | Inr r \<Rightarrow> failures tgt cs)"

fun running_results :: "target \<Rightarrow> worker_pc \<Rightarrow> pyval multiset" where
  "running_results tgt (W_run args kw) = mset (results_of tgt [(args, kw)])"
| "running_results tgt w = {#}"

text \<open>
  Counting threads: a worker thread that has taken a pill; one that holds a task of the work
  queue it has not yet acknowledged; one that is going to acknowledge its task. The same for
  the result thread.
\<close>

fun pill_taken :: "worker_pc \<Rightarrow> nat" where
  "pill_taken W_pill_ack = 1"
| "pill_taken W_done = 1"
| "pill_taken w = 0"

fun holds_task :: "worker_pc \<Rightarrow> nat" where
  "holds_task (W_run args kw) = 1"
| "holds_task W_ack = 1"
| "holds_task W_pill_ack = 1"
| "holds_task w = 0"

fun to_ack :: "target \<Rightarrow> worker_pc \<Rightarrow> nat" where
  "to_ack tgt (W_run args kw) = length (results_of tgt [(args, kw)])"
| "to_ack tgt W_ack = 1"
| "to_ack tgt W_pill_ack = 1"
| "to_ack tgt w = 0"

fun result_pill_taken :: "result_pc \<Rightarrow> nat" where
  "result_pill_taken R_pill_ack = 1"
| "result_pill_taken R_done = 1"
| "result_pill_taken w = 0"

fun result_holds_task :: "result_pc \<Rightarrow> nat" where
  "result_holds_task (R_run r) = 1"
| "result_holds_task R_ack = 1"
| "result_holds_task R_pill_ack = 1"
| "result_holds_task w = 0"

text \<open>
  The queues are FIFO: in the work queue no call stands behind a pill, in the result queue
  nothing stands behind the pill.
\<close>

fun pills_last :: "work_item list \<Rightarrow> bool" where
  "pills_last [] = True"
| "pills_last (Work args kw # q) = pills_last q"
| "pills_last (Work_pill # q) = (queued_calls q = [] \<and> pills_last q)"

fun pill_last :: "result_item list \<Rightarrow> bool" where
  "pill_last [] = True"
| "pill_last (Result r # q) = pill_last q"
| "pill_last (Result_pill # q) = (q = [])"

text \<open>
  The work queue side, for a pool of \<open>N\<close> threads: no worker thread has died, the count of
  unfinished tasks covers the queued and the held ones (so \<open>task_done\<close> never raises), the
  \<open>N\<close> pills are with the owner, in the queue or taken, no call is submitted once a pill is
  put, and no call waits once a pill is taken.
\<close>

fun inv_pills :: "nat \<Rightarrow> config \<Rightarrow> bool" where
  "inv_pills N (prog, p, v, out) \<longleftrightarrow>
     length (worker_threads p) = N \<and>
     sorted (map op_rank prog) \<and>
     W_dead \<notin> set (worker_threads p) \<and>
     length (items (worker_queue p)) + sum_list (map holds_task (worker_threads p))
       \<le> unfinished_tasks (worker_queue p) \<and>
     count_list prog Put_pill + count_list (items (worker_queue p)) Work_pill +
       sum_list (map pill_taken (worker_threads p)) = N \<and>
     pills_last (items (worker_queue p)) \<and>
     (count_list prog Put_pill < N \<longrightarrow> pending_calls prog = []) \<and>
     (0 < sum_list (map pill_taken (worker_threads p)) \<longrightarrow> queued_calls (items (worker_queue p)) = [])"

fun inv_shape :: "nat \<Rightarrow> config \<Rightarrow> bool" where
  "inv_shape N (prog, p, v, out) \<longleftrightarrow>
     length (worker_threads p) = N \<and> sorted (map op_rank prog) \<and>
     W_dead \<notin> set (worker_threads p)"

text \<open>
  The result queue side: a worker thread the owner has joined has returned; the one pill of
  the result queue is with the owner, in the queue or taken; once the owner has put it, every
  worker thread has returned; once the result thread has taken it, the result queue is empty;
  the result thread has not died, and once joined it has returned.
\<close>

fun inv_results :: "nat \<Rightarrow> config \<Rightarrow> bool" where
  "inv_results N (prog, p, v, out) \<longleftrightarrow>
     (\<forall>i<N. Join_thread i \<in> set prog \<or> worker_threads p ! i = W_done) \<and>
     count_list prog Put_result_pill + count_list (items (result_queue p)) Result_pill +
       result_pill_taken (result_thread p) = 1 \<and>
     (count_list prog Put_result_pill = 0 \<longrightarrow> (\<forall>w\<in>set (worker_threads p). w = W_done)) \<and>
     pill_last (items (result_queue p)) \<and>
     (result_pill_taken (result_thread p) = 1 \<longrightarrow> items (result_queue p) = []) \<and>
     (Join_result_thread \<in> set prog \<or> result_thread p = R_done) \<and>
     result_thread p \<noteq> R_dead \<and>
     length (items (result_queue p)) + result_holds_task (result_thread p)
       \<le> unfinished_tasks (result_queue p)"

text \<open>
  Accounting: \<open>rs\<close> are the results delivered so far, in order. Each was fanned out to the
  observers, the last one is the node's value, and together with the results on their way
  they are the results of the calls submitted.
\<close>

fun account ::
  "target \<Rightarrow> observer list \<Rightarrow> (pyval list \<times> kwargs) list \<Rightarrow> pyval \<Rightarrow> (nat \<times> pyval) list \<Rightarrow>
   pyval list \<Rightarrow> config \<Rightarrow> bool" where
  "account tgt obs cs v0 out0 rs (prog, p, v, out) \<longleftrightarrow>
     out = out0 @ concat (map (\<lambda>r. snd (fan_calls obs 0 r)) rs) \<and>
     v = (if rs = [] then v0 else last rs) \<and>
     mset (results_of tgt (pending_calls prog)) +
     mset (results_of tgt (queued_calls (items (worker_queue p)))) +
     sum_list (map (running_results tgt) (worker_threads p)) +
     mset (queued_results (items (result_queue p))) +
     mset (handled_result (result_thread p)) + mset rs = mset (results_of tgt cs)"

definition pool_inv ::
  "target \<Rightarrow> observer list \<Rightarrow> nat \<Rightarrow> (pyval list \<times> kwargs) list \<Rightarrow> pyval \<Rightarrow> (nat \<times> pyval) list \<Rightarrow>
   config \<Rightarrow> bool" where
  "pool_inv tgt obs N cs v0 out0 c \<longleftrightarrow>
     inv_pills N c \<and> inv_results N c \<and> (\<exists>rs. account tgt obs cs v0 out0 rs c)"

text \<open>
  For \<open>join\<close>: every call whose target raised leaves one task of the work queue unfinished
  for ever.
\<close>

fun inv_join :: "target \<Rightarrow> (pyval list \<times> kwargs) list \<Rightarrow> config \<Rightarrow> bool" where
  "inv_join tgt cs (prog, p, v, out) \<longleftrightarrow>
     sorted (map op_rank prog) \<and>
     Join_worker_queue \<in> set prog \<and>
     failures tgt cs + length (results_of tgt (queued_calls (items (worker_queue p)))) +
       count_list (items (worker_queue p)) Work_pill +
       sum_list (map (to_ack tgt) (worker_threads p))
     \<le> unfinished_tasks (worker_queue p) + failures tgt (pending_calls prog)"

text \<open>
  A weight that every step lowers: what the owner, the queues and the threads still have to
  do, counted in steps.
\<close>

fun op_weight :: "op \<Rightarrow> nat" where
  "op_weight (Execute args kw) = 7"
| "op_weight Put_pill = 3"
| "op_weight Put_result_pill = 3"
| "op_weight c = 1"

fun work_weight :: "work_item \<Rightarrow> nat" where
  "work_weight (Work args kw) = 6"
| "work_weight Work_pill = 2"

fun worker_weight :: "worker_pc \<Rightarrow> nat" where
  "worker_weight (W_run args kw) = 5"
| "worker_weight W_ack = 1"
| "worker_weight W_pill_ack = 1"
| "worker_weight w = 0"

fun result_weight :: "result_item \<Rightarrow> nat" where
  "result_weight (Result r) = 3"
| "result_weight Result_pill = 2"

fun handler_weight :: "result_pc \<Rightarrow> nat" where
  "handler_weight (R_run r) = 2"
| "handler_weight R_ack = 1"
| "handler_weight R_pill_ack = 1"
| "handler_weight w = 0"

fun weight :: "config \<Rightarrow> nat" where
  "weight (prog, p, v, out) =
     sum_list (map op_weight prog) + sum_list (map work_weight (items (worker_queue p))) +
     sum_list (map worker_weight (worker_threads p)) +
     sum_list (map result_weight (items (result_queue p))) + handler_weight (result_thread p)"

section \<open>Example objects\<close>

text \<open>
  The scenario of the specification: a node around \<open>def add(a, b=10): return a + b\<close>,
  with a started synchronous worker, and two observers, one that returns and one that raises.
  \<open>add_target\<close> binds the arguments as the call \<open>add(*args, **kwargs)\<close> does: a third
  positional argument, a keyword other than \<open>a\<close> and \<open>b\<close>, a parameter given twice and
  a missing \<open>a\<close> are a \<open>TypeError\<close>, a missing \<open>b\<close> is \<open>10\<close>; \<open>py_add\<close> is \<open>+\<close> on
  the values of the model.
\<close>

fun py_add :: "pyval \<Rightarrow> pyval \<Rightarrow> exn + pyval" where
  "py_add (PyInt a) (PyInt b) = Inr (PyInt (a + b))"
| "py_add (PyStr a) (PyStr b) = Inr (PyStr (a @ b))"
| "py_add (PyList a) (PyList b) = Inr (PyList (a @ b))"
| "py_add a b = Inl TypeError"

definition add_target :: target where
  "add_target args kw =
     (case args of
        [] \<Rightarrow>
          (if list_all (\<lambda>k. k = ''a'' \<or> k = ''b'') (map fst kw) then
             (case map_of kw ''a'' of
                None \<Rightarrow> Inl TypeError
              | Some a \<Rightarrow> py_add a (case map_of kw ''b'' of None \<Rightarrow> PyInt 10 | Some b \<Rightarrow> b))
           else Inl TypeError)
      | [a] \<Rightarrow>
          (if list_all (\<lambda>k. k = ''b'') (map fst kw) then
             py_add a (case map_of kw ''b'' of None \<Rightarrow> PyInt 10 | Some b \<Rightarrow> b)
           else Inl TypeError)
      | [a, b] \<Rightarrow> (if kw = [] then py_add a b else Inl TypeError)
      | _ \<Rightarrow> Inl TypeError)"

definition add_node :: node where
  "add_node =
     \<lparr>reactive_input_ports = [ArgInputPort (Some 0)],
      reactive_input_values = [PyNone],
      passive_input_ports = [(''b'', KwargInputPort ''b'')],
      passive_input_values = [(''b'', PyInt 10)],
      node_value = PyNone,
      worker = SyncWorker True True,
      notified = [],
      logged = [],
      invocations = []\<rparr>"

definition accepting :: observer where
  "accepting data = Inr ()"

definition rejecting :: observer where
  "rejecting data = Inl (Exception ''observer failed'')"

text \<open>A node of arity two around \<open>lambda a, b: [a, b]\<close>, its second port a batch port.\<close>

definition pair_node :: node where
  "pair_node =
     \<lparr>reactive_input_ports = [ArgInputPort (Some 0), BatchArgInputPort 2 (Some 1)],
      reactive_input_values = [PyInt 1, PyInt 2],
      passive_input_ports = [],
      passive_input_values = [],
      node_value = PyNone,
      worker = SyncWorker True True,
      notified = [],
      logged = [],
      invocations = []\<rparr>"

definition list_target :: target where
  "list_target args kw = Inr (PyList args)"

text \<open>What \<open>FunctionInfo\<close> reports about \<open>add(a, b=10)\<close>.\<close>

definition add_info :: function_info where
  "add_info = \<lparr>num_args = 1, kwargs = [(''b'', PyInt 10)]\<rparr>"

text \<open>
  The node of \<open>add\<close> with an unstarted pool of \<open>N\<close> threads; and what is seen of a run:
  the operations left to the owner, the node's value and the calls of observers.
\<close>

definition pool_node :: "nat \<Rightarrow> node" where
  "pool_node N = add_node\<lparr>worker := AsyncWorker N None\<rparr>"

definition outcome :: "(op list \<times> node) option \<Rightarrow> (op list \<times> pyval \<times> (nat \<times> pyval) list) option" where
  "outcome s = map_option (\<lambda>(prog, n). (prog, node_value n, notified n)) s"

text \<open>
  \<open>busy_node N cs\<close>: the node of \<open>add\<close> with a started pool of \<open>N\<close> threads and the calls
  \<open>cs\<close> on its work queue, as \<open>execute\<close> leaves them.
\<close>

definition busy_node :: "nat \<Rightarrow> (pyval list \<times> kwargs) list \<Rightarrow> node" where
  "busy_node N cs =
     add_node\<lparr>worker := AsyncWorker N
       (Some \<lparr>worker_queue = \<lparr>items = map (\<lambda>(args, kw). Work args kw) cs, unfinished_tasks = length cs\<rparr>,
              result_queue = new_queue,
              worker_threads = replicate N W_get, result_thread = R_get\<rparr>)\<rparr>"

text \<open>
  A graph of three nodes, the second with a started pool of one thread and the call
  \<open>add(5, b=10)\<close> on its work queue; a schedule under which the \<open>stop\<close> of that node
  returns; and what is seen of a graph after \<open>Graph.stop\<close>: the exception, \<open>is_alive\<close>,
  for each node whether its synchronous worker is started, the calls left on its work queue,
  the results left on its result queue, its value and the calls of its observers, and what
  \<open>stop\<close> did.
\<close>

definition example_graph :: graph where
  "example_graph =
     \<lparr>name = ''example'',
      nodes = [add_node, busy_node 1 [([PyInt 5], [(''b'', PyInt 10)])], add_node],
      is_alive = True\<rparr>"

definition example_schedule :: "thread list" where
  "example_schedule =
     [Worker_thread 0, Worker_thread 0, Worker_thread 0, Owner, Worker_thread 0, Worker_thread 0,
      Owner, Owner, Result_thread, Result_thread, Result_thread, Result_thread, Result_thread,
      Owner]"

definition sync_started :: "node \<Rightarrow> bool" where
  "sync_started n = (case worker n of SyncWorker t s \<Rightarrow> s | AsyncWorker _ _ \<Rightarrow> False)"

definition backlog :: "node \<Rightarrow> (pyval list \<times> kwargs) list" where
  "backlog n = (case get_pool n of None \<Rightarrow> [] | Some p \<Rightarrow> queued_calls (items (worker_queue p)))"

definition unhandled :: "node \<Rightarrow> pyval list" where
  "unhandled n = (case get_pool n of None \<Rightarrow> [] | Some p \<Rightarrow> queued_results (items (result_queue p)))"

definition stopped_graph ::
  "(exn option \<times> graph \<times> graph_event list) option \<Rightarrow>
   (exn option \<times> bool \<times>
    (bool \<times> (pyval list \<times> kwargs) list \<times> pyval list \<times> pyval \<times> (nat \<times> pyval) list) list \<times>
    graph_event list) option" where
  "stopped_graph r =
     map_option (\<lambda>(e, g, evs).
       (e, is_alive g,
        map (\<lambda>n. (sync_started n, backlog n, unhandled n, node_value n, notified n)) (nodes g), evs)) r"

section \<open>The synchronous worker\<close>

lemma notify_observers_frame:
  "notify_observers obs j d n = (r, n') \<Longrightarrow>
     node_value n' = node_value n \<and> reactive_input_values n' = reactive_input_values n \<and>
     passive_input_values n' = passive_input_values n \<and> worker n' = worker n \<and>
     logged n' = logged n \<and> invocations n' = invocations n \<and>
     reactive_input_ports n' = reactive_input_ports n \<and> passive_input_ports n' = passive_input_ports n"
  by (induction obs arbitrary: j n) (auto simp: Let_def split: sum.splits)

lemma notify_observers_all_ok:
  "\<forall>ob\<in>set obs. ob d = Inr () \<Longrightarrow>
     notify_observers obs j d n =
       (None, n\<lparr>notified := notified n @ map (\<lambda>i. (i, d)) [j..<j + length obs]\<rparr>)"
proof (induction obs arbitrary: j n)
  case Nil
  then show ?case by simp
next
  case (Cons ob obs)
  have "[j..<j + length (ob # obs)] = j # [Suc j..<Suc j + length obs]"
    by (subst upt_rec) simp
  with Cons show ?case by (simp add: Let_def)
qed

lemma notify_observers_first_raise:
  assumes "\<forall>ob\<in>set pre. ob d = Inr ()" and "bad d = Inl e"
  shows "notify_observers (pre @ bad # post) j d n =
       (Some e, n\<lparr>notified := notified n @ map (\<lambda>i. (i, d)) [j..<Suc (j + length pre)]\<rparr>)"
  using assms
proof (induction pre arbitrary: j n)
  case Nil
  then show ?case by (simp add: Let_def)
next
  case (Cons ob pre)
  have "[j..<Suc (j + length (ob # pre))] = j # [Suc j..<Suc (Suc j + length pre)]"
    by (subst upt_rec) simp
  with Cons show ?case by (simp add: Let_def)
qed

text \<open>
  Claim C4. A started synchronous worker whose target raises: \<open>execute\<close> returns (the
  exception is caught and not raised again), two lines are logged (the message and the
  traceback), the node's value and the notifications of the output port are as before.
  A later invocation whose target returns \<open>r\<close> sets the value to \<open>r\<close> and notifies every
  observer with \<open>r\<close>, in registration order.
\<close>

theorem sync_target_failure:
  assumes "worker n = SyncWorker True True"
    and "tgt args1 kw1 = Inl e"
    and "tgt args2 kw2 = Inr r"
    and "\<forall>ob\<in>set obs. ob r = Inr ()"
  shows "\<exists>n1 n2. SyncWorker_execute tgt obs args1 kw1 n = Inr n1 \<and>
      node_value n1 = node_value n \<and> notified n1 = notified n \<and>
      logged n1 = logged n @ [Error ''SyncWorker failed to execute: %s'' e, Error_traceback e] \<and>
      SyncWorker_execute tgt obs args2 kw2 n1 = Inr n2 \<and>
      node_value n2 = r \<and>
      notified n2 = notified n @ map (\<lambda>i. (i, r)) [0..<length obs] \<and>
      logged n2 = logged n1"
  using assms
  by (simp add: SyncWorker_execute_def SyncWorker_try_def handle_result_def OutputPort_notify_def
      set_value_def notify_observers_all_ok)

theorem sync_target_failure_witness:
  "\<exists>n1 n2. SyncWorker_execute add_target [accepting, accepting] [PyNone] [(''b'', PyInt 10)] add_node = Inr n1 \<and>
      node_value n1 = PyNone \<and> notified n1 = [] \<and>
      logged n1 = [Error ''SyncWorker failed to execute: %s'' TypeError, Error_traceback TypeError] \<and>
      SyncWorker_execute add_target [accepting, accepting] [PyInt 5] [(''b'', PyInt 10)] n1 = Inr n2 \<and>
      node_value n2 = PyInt 15 \<and>
      notified n2 = [(0, PyInt 15), (1, PyInt 15)]"
  using sync_target_failure [of add_node add_target "[PyNone]" "[(''b'', PyInt 10)]" TypeError
      "[PyInt 5]" "[(''b'', PyInt 10)]" "PyInt 15" "[accepting, accepting]"]
  by (simp add: add_node_def add_target_def accepting_def upt_rec) blast

text \<open>
  Claim C9. A started synchronous worker whose target returns \<open>r\<close> while an observer raises
  \<open>e\<close> during the fan-out (the observers before it return): the exception leaves the body of
  the \<open>try\<close> and is caught by \<open>execute\<close>, which returns and logs it; the node's value is
  already \<open>r\<close>, and the observers up to the failing one were notified. A target that raises
  leaves the value as it was.
\<close>

theorem sync_fanout_failure:
  assumes "worker n = SyncWorker True True"
    and "tgt args kw = Inr r"
    and "\<forall>ob\<in>set pre. ob r = Inr ()" and "bad r = Inl e"
  shows "\<exists>n1 n'. SyncWorker_try tgt (pre @ bad # post) args kw n = (Some e, n1) \<and>
      SyncWorker_execute tgt (pre @ bad # post) args kw n = Inr n' \<and>
      node_value n' = r \<and>
      notified n' = notified n @ map (\<lambda>i. (i, r)) [0..<Suc (length pre)] \<and>
      logged n' = logged n @ [Error ''SyncWorker failed to execute: %s'' e, Error_traceback e] \<and>
      (\<forall>args' kw' e'. tgt args' kw' = Inl e' \<longrightarrow>
         (\<exists>m. SyncWorker_execute tgt (pre @ bad # post) args' kw' n = Inr m \<and>
              node_value m = node_value n))"
  using assms
  by (simp add: SyncWorker_execute_def SyncWorker_try_def handle_result_def OutputPort_notify_def
      set_value_def notify_observers_first_raise)

theorem sync_fanout_failure_witness:
  "\<exists>n'. SyncWorker_execute add_target [accepting, rejecting, accepting] [PyInt 5] [(''b'', PyInt 10)] add_node = Inr n' \<and>
      node_value n' = PyInt 15 \<and>
      notified n' = [(0, PyInt 15), (1, PyInt 15)] \<and>
      logged n' = [Error ''SyncWorker failed to execute: %s'' (Exception ''observer failed''),
                   Error_traceback (Exception ''observer failed'')]"
  using sync_fanout_failure [of add_node add_target "[PyInt 5]" "[(''b'', PyInt 10)]" "PyInt 15"
      "[accepting]" rejecting "Exception ''observer failed''" "[accepting]"]
  by (simp add: add_node_def add_target_def accepting_def rejecting_def upt_rec) blast

section \<open>Input handling of the node\<close>

lemma SyncWorker_try_frame:
  "SyncWorker_try tgt obs args kw n = (r, n') \<Longrightarrow>
     reactive_input_values n' = reactive_input_values n \<and>
     passive_input_values n' = passive_input_values n \<and> worker n' = worker n \<and>
     invocations n' = invocations n \<and>
     reactive_input_ports n' = reactive_input_ports n \<and> passive_input_ports n' = passive_input_ports n"
  by (auto simp: SyncWorker_try_def handle_result_def OutputPort_notify_def set_value_def
      split: if_splits sum.splits dest!: notify_observers_frame)

lemma worker_execute_frame:
  "worker_execute tgt obs args kw n = Inr n' \<Longrightarrow>
     reactive_input_values n' = reactive_input_values n \<and>
     passive_input_values n' = passive_input_values n \<and>
     invocations n' = invocations n \<and>
     reactive_input_ports n' = reactive_input_ports n \<and> passive_input_ports n' = passive_input_ports n"
  by (auto simp: worker_execute_def SyncWorker_execute_def AsyncWorker_execute_def set_pool_def
      split: worker.splits prod.splits option.splits dest!: SyncWorker_try_frame)

lemma handle_input_trigger:
  assumes "idx = None \<and> vs = reactive_input_values n \<or>
           (\<exists>i. idx = Some i \<and> list_setitem (reactive_input_values n) i data = Inr vs)"
  shows "\<exists>n'. handle_input tgt obs data idx None n = Inr n' \<and>
      reactive_input_values n' = vs \<and>
      passive_input_values n' = passive_input_values n \<and>
      invocations n' = invocations n @ [(vs, passive_input_values n)] \<and>
      reactive_input_ports n' = reactive_input_ports n \<and> passive_input_ports n' = passive_input_ports n"
  using assms
  by (auto simp: handle_input_def Let_def split: sum.splits dest!: worker_execute_frame)

lemma handle_input_valid:
  assumes "valid_idx idx n"
  shows "\<exists>n'. handle_input tgt obs x idx None n = Inr n' \<and>
      reactive_input_values n' = trigger_args idx (reactive_input_values n) x \<and>
      passive_input_values n' = passive_input_values n \<and>
      invocations n' =
        invocations n @ [(trigger_args idx (reactive_input_values n) x, passive_input_values n)]"
proof (cases idx)
  case None
  then show ?thesis
    using handle_input_trigger [of None "reactive_input_values n" n x tgt obs]
    by (auto simp: trigger_args_def)
next
  case (Some i)
  with assms have "list_setitem (reactive_input_values n) i x = Inr ((reactive_input_values n)[nat i := x])"
    by (simp add: list_setitem_def py_index_def valid_idx_def)
  with Some show ?thesis
    using handle_input_trigger [of "Some i" "(reactive_input_values n)[nat i := x]" n x tgt obs]
    by (auto simp: trigger_args_def)
qed

lemma handle_inputs_valid:
  assumes "valid_idx idx n"
  shows "\<exists>n'. handle_inputs tgt obs xs idx n = Inr n' \<and>
      (\<forall>y. trigger_args idx (reactive_input_values n') y = trigger_args idx (reactive_input_values n) y) \<and>
      length (reactive_input_values n') = length (reactive_input_values n) \<and>
      passive_input_values n' = passive_input_values n \<and>
      invocations n' =
        invocations n @ map (\<lambda>x. (trigger_args idx (reactive_input_values n) x, passive_input_values n)) xs"
  using assms
proof (induction xs arbitrary: n)
  case Nil
  then show ?case by simp
next
  case (Cons x xs)
  from handle_input_valid [OF Cons.prems, of tgt obs x]
  obtain n1 where n1: "handle_input tgt obs x idx None n = Inr n1"
      "reactive_input_values n1 = trigger_args idx (reactive_input_values n) x"
      "passive_input_values n1 = passive_input_values n"
      "invocations n1 =
        invocations n @ [(trigger_args idx (reactive_input_values n) x, passive_input_values n)]"
    by blast
  from n1(2) Cons.prems have valid1: "valid_idx idx n1"
    by (auto simp: valid_idx_def trigger_args_def split: option.splits)
  from n1(2) have same: "trigger_args idx (reactive_input_values n1) y = trigger_args idx (reactive_input_values n) y" for y
    by (auto simp: trigger_args_def split: option.splits)
  from n1(2) have len: "length (reactive_input_values n1) = length (reactive_input_values n)"
    by (auto simp: trigger_args_def split: option.splits)
  from Cons.IH [OF valid1] obtain n' where n': "handle_inputs tgt obs xs idx n1 = Inr n'"
      "\<forall>y. trigger_args idx (reactive_input_values n') y = trigger_args idx (reactive_input_values n1) y"
      "length (reactive_input_values n') = length (reactive_input_values n1)"
      "passive_input_values n' = passive_input_values n1"
      "invocations n' =
        invocations n1 @ map (\<lambda>x. (trigger_args idx (reactive_input_values n1) x, passive_input_values n1)) xs"
    by blast
  show ?case
    using n1 n' same len by simp
qed

lemma worker_execute_sync_value:
  assumes "worker n = SyncWorker True True" and "tgt args kw = Inr r"
    and "worker_execute tgt obs args kw n = Inr n'"
  shows "node_value n' = r"
proof -
  obtain res m where m: "notify_observers obs 0 r (n\<lparr>node_value := r\<rparr>) = (res, m)"
    by (cases "notify_observers obs 0 r (n\<lparr>node_value := r\<rparr>)")
  then have "node_value m = r"
    by (auto dest: notify_observers_frame)
  with assms m show ?thesis
    by (auto simp: worker_execute_def SyncWorker_execute_def SyncWorker_try_def handle_result_def
        OutputPort_notify_def set_value_def split: option.splits)
qed

lemma worker_execute_async_queue:
  assumes "worker n = AsyncWorker N (Some p)"
  shows "worker_execute tgt obs args kw n =
     Inr (n\<lparr>worker := AsyncWorker N
            (Some (p\<lparr>worker_queue := queue_put (Work args kw) (worker_queue p)\<rparr>))\<rparr>)"
  using assms by (simp add: worker_execute_def AsyncWorker_execute_def get_pool_def set_pool_def)

text \<open>
  Claim C3. A non-keyword input event with value \<open>x\<close> at a position \<open>i\<close> of the reactive
  vector: \<open>handle_input\<close> returns, the vector differs from the old one at position \<open>i\<close>
  only, where it holds \<open>x\<close>, the passive values are as before, and the worker is invoked
  once, with the whole updated vector as positional and the passive values as keyword
  arguments. With a started synchronous worker the target runs on these arguments at once
  (its result is the node's value); a started asynchronous worker gets them on its queue.
  With cached values \<open>[a0, a1]\<close> the event \<open>(x, idx=1)\<close> invokes with \<open>(a0, x)\<close>.
\<close>

theorem handle_input_reactive:
  assumes "0 \<le> i" and "i < int (length (reactive_input_values n))"
  shows "\<exists>n'. handle_input tgt obs x (Some i) None n = Inr n' \<and>
      reactive_input_values n' = (reactive_input_values n)[nat i := x] \<and>
      passive_input_values n' = passive_input_values n \<and>
      invocations n' =
        invocations n @ [((reactive_input_values n)[nat i := x], passive_input_values n)] \<and>
      (worker n = SyncWorker True True \<longrightarrow>
         (\<forall>r. tgt ((reactive_input_values n)[nat i := x]) (passive_input_values n) = Inr r \<longrightarrow>
              node_value n' = r)) \<and>
      (\<forall>N p. worker n = AsyncWorker N (Some p) \<longrightarrow>
         worker n' = AsyncWorker N
           (Some (p\<lparr>worker_queue :=
                     queue_put (Work ((reactive_input_values n)[nat i := x]) (passive_input_values n))
                       (worker_queue p)\<rparr>)))"
proof -
  let ?vs = "(reactive_input_values n)[nat i := x]"
  let ?n2 = "n\<lparr>reactive_input_values := ?vs,
               invocations := invocations n @ [(?vs, passive_input_values n)]\<rparr>"
  from assms have set: "list_setitem (reactive_input_values n) i x = Inr ?vs"
    by (simp add: list_setitem_def py_index_def)
  from handle_input_trigger [of "Some i" ?vs n x tgt obs] set
  obtain n' where n': "handle_input tgt obs x (Some i) None n = Inr n'"
      "reactive_input_values n' = ?vs" "passive_input_values n' = passive_input_values n"
      "invocations n' = invocations n @ [(?vs, passive_input_values n)]"
    by auto
  have sync: "node_value n' = r"
    if "worker n = SyncWorker True True" and "tgt ?vs (passive_input_values n) = Inr r" for r
  proof -
    from that(1) have "worker ?n2 = SyncWorker True True" by simp
    moreover from n'(1) set that(1)
    have "worker_execute tgt obs ?vs (passive_input_values n) ?n2 = Inr n'"
      by (auto simp: handle_input_def Let_def worker_execute_def SyncWorker_execute_def
          split: sum.splits prod.splits option.splits)
    ultimately show ?thesis using that(2) by (intro worker_execute_sync_value)
  qed
  have async: "worker n' = AsyncWorker N
      (Some (p\<lparr>worker_queue := queue_put (Work ?vs (passive_input_values n)) (worker_queue p)\<rparr>))"
    if "worker n = AsyncWorker N (Some p)" for N p
  proof -
    from that have "worker ?n2 = AsyncWorker N (Some p)" by simp
    from worker_execute_async_queue [OF this, of tgt obs ?vs "passive_input_values n"] n'(1) set
    show ?thesis by (auto simp: handle_input_def Let_def)
  qed
  from n' sync async show ?thesis by blast
qed

theorem handle_input_reactive_witness:
  "\<exists>n'. handle_input list_target [] (PyInt 7) (Some 1) None pair_node = Inr n' \<and>
      reactive_input_values n' = [PyInt 1, PyInt 7] \<and>
      invocations n' = [([PyInt 1, PyInt 7], [])] \<and>
      node_value n' = PyList [PyInt 1, PyInt 7]"
proof -
  have "(0::int) \<le> 1" and "1 < int (length (reactive_input_values pair_node))"
    by (simp_all add: pair_node_def)
  from handle_input_reactive [OF this, of list_target "[]" "PyInt 7"]
  show ?thesis
    by (simp add: pair_node_def list_target_def) blast
qed

text \<open>
  Claim C6. A keyword input event (value \<open>y\<close> for the passive key \<open>k\<close>), through
  \<open>handle_input\<close> or through \<open>KwargInputPort.notify\<close>: the cached passive value of \<open>k\<close>
  becomes \<open>y\<close>, the other keys keep theirs, and nothing else of the node changes: no
  invocation of the worker, the same value, the same reactive vector, no notification.
\<close>

theorem handle_input_keyword:
  "\<exists>n'. handle_input tgt obs y idx (Some k) n = Inr n' \<and>
      port_notify tgt obs (KwargInputPort k) y n = Inr n' \<and>
      n' = n\<lparr>passive_input_values := AList.update k y (passive_input_values n)\<rparr> \<and>
      map_of (passive_input_values n') k = Some y \<and>
      (\<forall>k'. k' \<noteq> k \<longrightarrow> map_of (passive_input_values n') k' = map_of (passive_input_values n) k') \<and>
      invocations n' = invocations n \<and>
      node_value n' = node_value n \<and>
      reactive_input_values n' = reactive_input_values n \<and>
      notified n' = notified n \<and>
      logged n' = logged n \<and>
      worker n' = worker n"
  by (simp add: handle_input_def update_conv')

theorem handle_input_keyword_witness:
  "\<exists>n'. handle_input add_target [accepting] (PyInt 3) None (Some ''b'') add_node = Inr n' \<and>
      passive_input_values n' = [(''b'', PyInt 3)] \<and>
      invocations n' = [] \<and> notified n' = [] \<and> node_value n' = PyNone \<and>
      reactive_input_values n' = [PyNone]"
  using handle_input_keyword [of add_target "[accepting]" "PyInt 3" None "''b''" add_node]
  by (simp add: add_node_def)

text \<open>
  Claim C10. \<open>Node.notify\<close> with \<open>data = None\<close> looks at no port (whatever \<open>port_idx\<close>
  is) and calls \<open>handle_input(None, None, None)\<close>: the cached reactive and passive values
  are as before, and the worker is invoked once with them.
\<close>

theorem notify_none:
  "\<exists>n'. Node_notify tgt obs PyNone port_idx n = Inr n' \<and>
      Node_notify tgt obs PyNone port_idx n = handle_input tgt obs PyNone None None n \<and>
      reactive_input_values n' = reactive_input_values n \<and>
      passive_input_values n' = passive_input_values n \<and>
      invocations n' = invocations n @ [(reactive_input_values n, passive_input_values n)]"
  using handle_input_trigger [of None "reactive_input_values n" n PyNone tgt obs]
  by (auto simp: Node_notify_def)

theorem notify_none_witness:
  "\<exists>n'. Node_notify add_target [accepting] PyNone 0 add_node = Inr n' \<and>
      reactive_input_values n' = [PyNone] \<and>
      passive_input_values n' = [(''b'', PyInt 10)] \<and>
      invocations n' = [([PyNone], [(''b'', PyInt 10)])]"
  using notify_none [of add_target "[accepting]" 0 add_node]
  by (simp add: add_node_def) blast

section \<open>The batch port\<close>

lemma py_range_shift:
  "py_range (i + k) (stop + k) step = map (\<lambda>j. j + k) (py_range i stop step)"
proof (induction i stop step rule: py_range.induct)
  case (1 i stop step)
  show ?case
  proof (cases "step = 0 \<or> stop \<le> i")
    case True
    then show ?thesis by (auto simp: py_range.simps)
  next
    case False
    then have "py_range (i + k) (stop + k) step = (i + k) # py_range (i + step + k) (stop + k) step"
      by (subst py_range.simps) (simp add: add.commute add.left_commute)
    also have "py_range (i + step + k) (stop + k) step = map (\<lambda>j. j + k) (py_range (i + step) stop step)"
      using False by (intro "1.IH") simp
    finally show ?thesis using False by (subst (2) py_range.simps) simp
  qed
qed

lemma py_range_step:
  assumes "0 < s"
  shows "py_range s l s = map (\<lambda>j. j + s) (py_range 0 (l - s) s)"
proof (cases "s \<le> l")
  case True
  then show ?thesis using py_range_shift [of 0 s "l - s" s] by simp
next
  case False
  then show ?thesis by (simp add: py_range.simps)
qed

lemma chunks_list_Nil: "chunks_list s [] = []"
  by (simp add: chunks_list_def py_range.simps)

lemma chunks_list_rec:
  assumes "0 < s" and "xs \<noteq> []"
  shows "chunks_list s xs = take s xs # chunks_list s (drop s xs)"
proof -
  from assms have "py_range 0 (length xs) s = 0 # py_range s (length xs) s"
    by (subst py_range.simps) simp
  also have "py_range s (length xs) s = map (\<lambda>j. j + s) (py_range 0 (length xs - s) s)"
    using assms(1) by (rule py_range_step)
  finally show ?thesis
    by (simp add: chunks_list_def slice_def comp_def add.commute)
qed

lemma concat_chunks_list: "0 < s \<Longrightarrow> concat (chunks_list s xs) = xs"
proof (induction "length xs" arbitrary: xs rule: less_induct)
  case less
  show ?case
  proof (cases "xs = []")
    case True
    then show ?thesis by (simp add: chunks_list_Nil)
  next
    case False
    with less.prems have "length (drop s xs) < length xs" by simp
    then have "concat (chunks_list s (drop s xs)) = drop s xs"
      using less.prems by (intro less.hyps)
    with False less.prems show ?thesis by (simp add: chunks_list_rec)
  qed
qed

lemma ceil_div_full:
  fixes l s :: nat
  assumes "0 < s" and "s \<le> l"
  shows "(l + s - 1) div s = Suc ((l - s + s - 1) div s)"
proof -
  from assms have "l + s - 1 = (l - 1) + s" by arith
  then have "(l + s - 1) div s = ((l - 1) + s) div s" by (rule arg_cong)
  also from assms(1) have "\<dots> = Suc ((l - 1) div s)" by (simp add: div_add_self2)
  also from assms(2) have "l - 1 = l - s + s - 1" by arith
  finally show ?thesis .
qed

lemma ceil_div_short:
  fixes l s :: nat
  assumes "0 < l" and "l < s"
  shows "(l + s - 1) div s = 1"
proof (rule div_nat_eqI)
  from assms show "s * 1 \<le> l + s - 1" by arith
  from assms show "l + s - 1 < s * Suc 1" by arith
qed

lemma length_chunks_list: "0 < s \<Longrightarrow> length (chunks_list s xs) = (length xs + s - 1) div s"
proof (induction "length xs" arbitrary: xs rule: less_induct)
  case less
  show ?case
  proof (cases "xs = []")
    case True
    with less.prems show ?thesis by (simp add: chunks_list_Nil)
  next
    case False
    with less.prems have "length (drop s xs) < length xs" by simp
    then have IH: "length (chunks_list s (drop s xs)) = (length (drop s xs) + s - 1) div s"
      using less.prems by (intro less.hyps)
    from False less.prems
    have rec: "length (chunks_list s xs) = Suc (length (chunks_list s (drop s xs)))"
      by (simp add: chunks_list_rec)
    show ?thesis
    proof (cases "s \<le> length xs")
      case True
      with less.prems have "(length xs + s - 1) div s = Suc ((length xs - s + s - 1) div s)"
        by (rule ceil_div_full)
      with rec IH show ?thesis by simp
    next
      case small: False
      with False have "(length xs + s - 1) div s = 1"
        by (intro ceil_div_short) simp_all
      moreover from small have "drop s xs = []" by simp
      ultimately show ?thesis using rec by (simp add: chunks_list_Nil)
    qed
  qed
qed

lemma chunks_list_sizes:
  "0 < s \<Longrightarrow> c \<in> set (chunks_list s xs) \<Longrightarrow> c \<noteq> [] \<and> length c \<le> s"
proof (induction "length xs" arbitrary: xs rule: less_induct)
  case less
  show ?case
  proof (cases "xs = []")
    case True
    with less.prems show ?thesis by (simp add: chunks_list_Nil)
  next
    case False
    with less.prems have "length (drop s xs) < length xs" by simp
    then have "c \<in> set (chunks_list s (drop s xs)) \<Longrightarrow> c \<noteq> [] \<and> length c \<le> s"
      using less.prems(1) by (intro less.hyps)
    with False less.prems show ?thesis by (auto simp: chunks_list_rec)
  qed
qed

lemma chunks_list_full:
  "0 < s \<Longrightarrow> Suc j < length (chunks_list s xs) \<Longrightarrow> length (chunks_list s xs ! j) = s"
proof (induction "length xs" arbitrary: xs j rule: less_induct)
  case less
  show ?case
  proof (cases "xs = []")
    case True
    with less.prems show ?thesis by (simp add: chunks_list_Nil)
  next
    case False
    with less.prems have shorter: "length (drop s xs) < length xs" by simp
    from False less.prems have rec: "chunks_list s xs = take s xs # chunks_list s (drop s xs)"
      by (simp add: chunks_list_rec)
    show ?thesis
    proof (cases j)
      case 0
      with less.prems rec have "chunks_list s (drop s xs) \<noteq> []" by auto
      then have "drop s xs \<noteq> []" by (auto simp: chunks_list_Nil)
      then have "s \<le> length xs" by simp
      with 0 rec show ?thesis by simp
    next
      case (Suc k)
      with less.prems rec have "Suc k < length (chunks_list s (drop s xs))" by simp
      then have "length (chunks_list s (drop s xs) ! k) = s"
        using shorter less.prems(1) by (intro less.hyps)
      with Suc rec show ?thesis by simp
    qed
  qed
qed

lemma chunks_PyList:
  "0 < s \<Longrightarrow> chunks (int s) (PyList xs) = Inr (map PyList (chunks_list s xs))"
  by (simp add: chunks_def py_len_def py_slice_def chunks_list_def)

text \<open>
  Claim C5. A \<open>BatchArgInputPort\<close> with batch size \<open>s \<ge> 1\<close> fed a list of length \<open>L\<close>:
  the chunks are contiguous and in payload order (their concatenation is the payload), there
  are \<open>ceil(L / s)\<close> of them, none is empty or longer than \<open>s\<close>, all but the last have
  length \<open>s\<close>, and \<open>notify\<close> invokes the worker exactly once per chunk, in that order, with
  the chunk at the port's position. Size 2 fed \<open>[1,2,3,4,5]\<close> triggers with \<open>[1,2]\<close>,
  \<open>[3,4]\<close>, \<open>[5]\<close>.
\<close>

theorem batch_notify:
  assumes "0 < s" and "valid_idx idx n"
  shows "chunks (int s) (PyList xs) = Inr (map PyList (chunks_list s xs)) \<and>
      concat (chunks_list s xs) = xs \<and>
      length (chunks_list s xs) = (length xs + s - 1) div s \<and>
      (\<forall>c\<in>set (chunks_list s xs). c \<noteq> [] \<and> length c \<le> s) \<and>
      (\<forall>j. Suc j < length (chunks_list s xs) \<longrightarrow> length (chunks_list s xs ! j) = s) \<and>
      (\<exists>n'. port_notify tgt obs (BatchArgInputPort (int s) idx) (PyList xs) n = Inr n' \<and>
         invocations n' =
           invocations n @
           map (\<lambda>c. (trigger_args idx (reactive_input_values n) (PyList c), passive_input_values n))
             (chunks_list s xs))"
proof -
  from handle_inputs_valid [OF assms(2), of tgt obs "map PyList (chunks_list s xs)"]
  have "\<exists>n'. port_notify tgt obs (BatchArgInputPort (int s) idx) (PyList xs) n = Inr n' \<and>
         invocations n' =
           invocations n @
           map (\<lambda>c. (trigger_args idx (reactive_input_values n) (PyList c), passive_input_values n))
             (chunks_list s xs)"
    using assms(1) by (auto simp: chunks_PyList comp_def)
  with assms(1) show ?thesis
    by (simp add: chunks_PyList concat_chunks_list length_chunks_list chunks_list_sizes chunks_list_full)
qed

theorem batch_notify_witness:
  "chunks 2 (PyList [PyInt 1, PyInt 2, PyInt 3, PyInt 4, PyInt 5]) =
     Inr [PyList [PyInt 1, PyInt 2], PyList [PyInt 3, PyInt 4], PyList [PyInt 5]] \<and>
   (\<exists>n'. port_notify list_target [] (BatchArgInputPort 2 (Some 1))
            (PyList [PyInt 1, PyInt 2, PyInt 3, PyInt 4, PyInt 5]) pair_node = Inr n' \<and>
      invocations n' =
        [([PyInt 1, PyList [PyInt 1, PyInt 2]], []),
         ([PyInt 1, PyList [PyInt 3, PyInt 4]], []),
         ([PyInt 1, PyList [PyInt 5]], [])])"
proof -
  have c: "chunks_list 2 [PyInt 1, PyInt 2, PyInt 3, PyInt 4, PyInt 5] =
      [[PyInt 1, PyInt 2], [PyInt 3, PyInt 4], [PyInt 5]]"
    by code_simp
  have v: "valid_idx (Some 1) pair_node"
    by (simp add: valid_idx_def pair_node_def)
  have "0 < (2::nat)" by simp
  from batch_notify [of 2 "Some 1" pair_node "[PyInt 1, PyInt 2, PyInt 3, PyInt 4, PyInt 5]"
      list_target "[]", OF this v]
  show ?thesis
    by (simp add: c trigger_args_def pair_node_def del: port_notify.simps)
qed

section \<open>Construction\<close>

lemma register_args_ok:
  "length us \<le> length ports \<Longrightarrow> \<exists>regs. register_args us ports = Inr regs"
  by (induction us ports rule: register_args.induct) auto

lemma register_kwargs_ok:
  "\<forall>(k, u)\<in>set kus. map_of ports k \<noteq> None \<Longrightarrow> \<exists>regs. register_kwargs kus ports = Inr regs"
  by (induction kus ports rule: register_kwargs.induct) auto

lemma passive_ports_keys:
  "map_of (fold (\<lambda>(name, d). AList.update name (f name)) kws acc) k =
     (if k \<in> fst ` set kws then Some (f k) else map_of acc k)"
  by (induction kws arbitrary: acc) (auto simp: update_conv')

text \<open>
  Claim C7, as amended. A node built without an explicit port list from a target of
  positional arity \<open>k\<close> (for a class, the arity of \<open>execute\<close> less the instance parameter)
  has the \<open>k\<close> reactive ports \<open>ArgInputPort(0) .. ArgInputPort(k - 1)\<close>; its reactive vector
  is the supplied list of defaults as it is when a non-empty one is supplied (its length is
  not compared with \<open>k\<close>), and \<open>k\<close> nulls otherwise. The construction succeeds when there
  are at most \<open>k\<close> positional upstream nodes and every keyword upstream node names a keyword
  parameter. An explicit port list of another length than \<open>k\<close> aborts the construction
  with an \<open>AssertionError\<close>; one that is accepted has length \<open>k\<close>.
\<close>

theorem Node_init_arity:
  assumes "num_reactive_input_ports target_func target_class = Inr (k, info)" and "0 \<le> k"
  shows "(\<forall>n regs. Node_init target_func target_class NoPorts defaults node_args node_kwargs nthreads = Inr (n, regs) \<longrightarrow>
        reactive_input_ports n = map (\<lambda>i. ArgInputPort (Some (int i))) [0..<nat k] \<and>
        length (reactive_input_ports n) = nat k \<and>
        reactive_input_values n =
          (case defaults of Some (d # ds) \<Rightarrow> d # ds | _ \<Rightarrow> replicate (nat k) PyNone)) \<and>
     (length node_args \<le> nat k \<and> fst ` set node_kwargs \<subseteq> fst ` set (kwargs info) \<longrightarrow>
        (\<exists>n regs. Node_init target_func target_class NoPorts defaults node_args node_kwargs nthreads = Inr (n, regs))) \<and>
     (\<forall>ps. int (length ps) \<noteq> k \<longrightarrow>
        Node_init target_func target_class (PortList ps) defaults node_args node_kwargs nthreads = Inl AssertionError) \<and>
     (\<forall>ps n regs. Node_init target_func target_class (PortList ps) defaults node_args node_kwargs nthreads = Inr (n, regs) \<longrightarrow>
        reactive_input_ports n = ps \<and> int (length ps) = k)"
proof -
  have ports: "build_ports NoPorts k = Inr (map (\<lambda>i. ArgInputPort (Some (int i))) [0..<nat k])"
    by (simp add: build_ports_def default_ports_def)
  have 1: "reactive_input_ports n = map (\<lambda>i. ArgInputPort (Some (int i))) [0..<nat k] \<and>
        length (reactive_input_ports n) = nat k \<and>
        reactive_input_values n =
          (case defaults of Some (d # ds) \<Rightarrow> d # ds | _ \<Rightarrow> replicate (nat k) PyNone)"
    if "Node_init target_func target_class NoPorts defaults node_args node_kwargs nthreads = Inr (n, regs)"
    for n regs
    using that assms(1) ports
    by (auto simp: Node_init_def Let_def initial_values_def split: sum.splits option.splits list.splits)
  have 2: "\<exists>n regs. Node_init target_func target_class NoPorts defaults node_args node_kwargs nthreads = Inr (n, regs)"
    if "length node_args \<le> nat k" "fst ` set node_kwargs \<subseteq> fst ` set (kwargs info)"
  proof -
    from that(1) obtain regs1
      where r1: "register_args node_args (map (\<lambda>i. ArgInputPort (Some (int i))) [0..<nat k]) = Inr regs1"
      using register_args_ok [of node_args "map (\<lambda>i. ArgInputPort (Some (int i))) [0..<nat k]"] by auto
    from that(2)
    have "\<forall>(kw, u)\<in>set node_kwargs.
        map_of (fold (\<lambda>(name, d). AList.update name (KwargInputPort name)) (kwargs info) []) kw \<noteq> None"
      by (force simp: passive_ports_keys)
    then obtain regs2
      where r2: "register_kwargs node_kwargs
          (fold (\<lambda>(name, d). AList.update name (KwargInputPort name)) (kwargs info) []) = Inr regs2"
      using register_kwargs_ok by blast
    show ?thesis
      using assms(1) ports r1 r2 by (simp add: Node_init_def Let_def)
  qed
  have 3: "Node_init target_func target_class (PortList ps) defaults node_args node_kwargs nthreads = Inl AssertionError"
    if "int (length ps) \<noteq> k" for ps
    using that assms(1) by (simp add: Node_init_def build_ports_def)
  have 4: "reactive_input_ports n = ps \<and> int (length ps) = k"
    if "Node_init target_func target_class (PortList ps) defaults node_args node_kwargs nthreads = Inr (n, regs)"
    for ps n regs
    using that assms(1)
    by (auto simp: Node_init_def Let_def build_ports_def split: sum.splits if_splits)
  from 1 2 3 4 show ?thesis by blast
qed

theorem Node_init_arity_witness:
  "(\<exists>n regs. Node_init (Some add_info) None NoPorts None [] [] None = Inr (n, regs) \<and>
      reactive_input_ports n = [ArgInputPort (Some 0)] \<and>
      reactive_input_values n = [PyNone]) \<and>
   Node_init (Some add_info) None (PortList []) None [] [] None = Inl AssertionError"
proof -
  have k: "num_reactive_input_ports (Some add_info) None = Inr (1, add_info)"
    by (simp add: num_reactive_input_ports_def add_info_def)
  from Node_init_arity [OF k, of None "[]" "[]" None]
  show ?thesis by (auto simp: add_info_def)
qed

text \<open>
  Claim C7 as stated fails: a target of arity 2 with the defaults \<open>[1]\<close> gives a node with
  two reactive ports and a reactive vector of one entry.
\<close>

theorem Node_init_defaults_counterexample:
  "(case Node_init (Some \<lparr>num_args = 2, kwargs = []\<rparr>) None NoPorts (Some [PyInt 1]) [] [] None of
      Inl e \<Rightarrow> False
    | Inr (n, regs) \<Rightarrow>
        length (reactive_input_ports n) = 2 \<and> length (reactive_input_values n) = 1)"
  by (simp add: Node_init_def num_reactive_input_ports_def build_ports_def default_ports_def
      initial_values_def build_node_worker_def upt_rec)

section \<open>The pool: steps and invariants\<close>

lemma notify_observers_fan_calls:
  "notify_observers obs j d n =
     (fst (fan_calls obs j d), n\<lparr>notified := notified n @ snd (fan_calls obs j d)\<rparr>)"
  by (induction obs arbitrary: j n) (auto simp: Let_def split: sum.splits prod.splits)

lemma handle_result_fan_calls:
  "handle_result obs r n =
     (fst (fan_calls obs 0 r), n\<lparr>node_value := r, notified := notified n @ snd (fan_calls obs 0 r)\<rparr>)"
  by (simp add: handle_result_def OutputPort_notify_def set_value_def notify_observers_fan_calls)

lemma get_pool_set_pool: "get_pool n = Some p \<Longrightarrow> get_pool (set_pool p' n) = Some p'"
  by (auto simp: get_pool_def set_pool_def split: worker.splits option.splits)

lemma set_pool_frame [simp]:
  "node_value (set_pool p n) = node_value n" "notified (set_pool p n) = notified n"
  by (auto simp: set_pool_def split: worker.splits)

lemma get_pool_frame [simp]:
  "get_pool (n\<lparr>logged := l\<rparr>) = get_pool n"
  "get_pool (n\<lparr>node_value := v, notified := out\<rparr>) = get_pool n"
  by (simp_all add: get_pool_def)

lemma do_op_moves:
  assumes "do_op c n = Some n'" and "get_pool n = Some p"
  shows "\<exists>p'. get_pool n' = Some p' \<and>
      moves tgt obs (c # prog, p, node_value n, notified n) (prog, p', node_value n', notified n')"
proof (cases c)
  case (Execute args kw)
  with assms show ?thesis
    by (auto simp: AsyncWorker_execute_def get_pool_set_pool intro: moves.execute)
next
  case Put_pill
  with assms show ?thesis by (auto simp: get_pool_set_pool intro: moves.put_pill)
next
  case (Join_thread i)
  with assms show ?thesis by (auto split: if_splits intro: moves.join_thread)
next
  case Put_result_pill
  with assms show ?thesis by (auto simp: get_pool_set_pool intro: moves.put_result_pill)
next
  case Join_result_thread
  with assms show ?thesis by (auto split: if_splits intro: moves.join_result_thread)
next
  case Join_worker_queue
  with assms show ?thesis by (auto split: if_splits intro: moves.join_worker_queue)
next
  case Join_result_queue
  with assms show ?thesis by (auto split: if_splits intro: moves.join_result_queue)
qed

lemma worker_step_moves:
  assumes "worker_step tgt i n = Some n'" and "get_pool n = Some p"
  shows "\<exists>p'. get_pool n' = Some p' \<and>
      moves tgt obs (prog, p, node_value n, notified n) (prog, p', node_value n', notified n')"
proof -
  from assms have i: "i < length (worker_threads p)"
    by (auto simp: worker_step_def split: if_splits)
  show ?thesis
  proof (cases "worker_threads p ! i")
    case W_get
    with assms i show ?thesis
      by (auto simp: worker_step_def get_pool_set_pool split: list.splits work_item.splits
          intro: moves.get_pill moves.get_work)
  next
    case (W_run args kw)
    with assms i show ?thesis
      by (auto simp: worker_step_def get_pool_set_pool split: sum.splits
          intro: moves.run_raises moves.run_returns)
  next
    case W_ack
    with assms i show ?thesis
      by (auto simp: worker_step_def get_pool_set_pool split: option.splits
          intro: moves.ack moves.ack_raises)
  next
    case W_pill_ack
    with assms i show ?thesis
      by (auto simp: worker_step_def get_pool_set_pool split: option.splits
          intro: moves.pill_ack moves.ack_raises)
  next
    case W_done
    with assms i show ?thesis by (simp add: worker_step_def)
  next
    case W_dead
    with assms i show ?thesis by (simp add: worker_step_def)
  qed
qed

lemma result_step_moves:
  assumes "result_step obs n = Some n'" and "get_pool n = Some p"
  shows "\<exists>p'. get_pool n' = Some p' \<and>
      moves tgt obs (prog, p, node_value n, notified n) (prog, p', node_value n', notified n')"
proof (cases "result_thread p")
  case R_get
  with assms show ?thesis
    by (auto simp: result_step_def get_pool_set_pool split: list.splits result_item.splits
        intro: moves.result_get_pill moves.result_get)
next
  case (R_run r)
  obtain res calls where fc: "fan_calls obs 0 r = (res, calls)"
    by (cases "fan_calls obs 0 r")
  with R_run assms show ?thesis
    by (cases res)
      (auto simp: result_step_def handle_result_fan_calls get_pool_set_pool
        intro: moves.handle_returns moves.handle_raises)
next
  case R_ack
  with assms show ?thesis
    by (auto simp: result_step_def get_pool_set_pool split: option.splits
        intro: moves.result_ack moves.result_ack_raises)
next
  case R_pill_ack
  with assms show ?thesis
    by (auto simp: result_step_def get_pool_set_pool split: option.splits
        intro: moves.result_pill_ack moves.result_ack_raises)
next
  case R_done
  with assms show ?thesis by (simp add: result_step_def)
next
  case R_dead
  with assms show ?thesis by (simp add: result_step_def)
qed

lemma sys_step_moves:
  assumes "sys_step tgt obs t s = Some s'" and "get_pool (snd s) \<noteq> None"
  shows "get_pool (snd s') \<noteq> None \<and> moves tgt obs (config_of s) (config_of s')"
proof -
  obtain prog n where s: "s = (prog, n)" by (cases s)
  from assms(2) s obtain p where p: "get_pool n = Some p" by auto
  show ?thesis
  proof (cases t)
    case Owner
    with assms(1) s obtain c rest n' where c: "prog = c # rest" "do_op c n = Some n'" "s' = (rest, n')"
      by (auto split: list.splits option.splits)
    from do_op_moves [OF c(2) p, of tgt obs rest] c s p show ?thesis
      by (auto simp: config_of_def)
  next
    case (Worker_thread i)
    with assms(1) s obtain n' where c: "worker_step tgt i n = Some n'" "s' = (prog, n')"
      by (auto split: option.splits)
    from worker_step_moves [OF c(1) p, of obs prog] c s p show ?thesis
      by (auto simp: config_of_def)
  next
    case Result_thread
    with assms(1) s obtain n' where c: "result_step obs n = Some n'" "s' = (prog, n')"
      by (auto split: option.splits)
    from result_step_moves [OF c(1) p, of tgt prog] c s p show ?thesis
      by (auto simp: config_of_def)
  qed
qed

lemma sum_list_map_update:
  fixes f :: "'a \<Rightarrow> 'b::comm_monoid_add"
  shows "i < length ws \<Longrightarrow> sum_list (map f (ws[i := w])) + f (ws ! i) = sum_list (map f ws) + f w"
proof (induction ws arbitrary: i)
  case Nil
  then show ?case by simp
next
  case (Cons a ws)
  then show ?case by (cases i) (simp_all add: ac_simps)
qed

lemma sum_list_update_nat:
  fixes f :: "'a \<Rightarrow> nat"
  assumes "i < length ws"
  shows "sum_list (map f (ws[i := w])) = sum_list (map f ws) + f w - f (ws ! i)"
  using sum_list_map_update [OF assms, of f w] by simp

lemma sum_list_ge_nth:
  fixes f :: "'a \<Rightarrow> nat"
  shows "i < length ws \<Longrightarrow> f (ws ! i) \<le> sum_list (map f ws)"
  by (induction ws arbitrary: i) (auto simp: nth_Cons split: nat.splits intro: trans_le_add2)

lemma queued_calls_append [simp]: "queued_calls (q @ q') = queued_calls q @ queued_calls q'"
  by (induction q rule: queued_calls.induct) auto

lemma pills_last_append_pill: "pills_last q \<Longrightarrow> pills_last (q @ [Work_pill])"
  by (induction q rule: pills_last.induct) auto

lemma pills_last_append_work:
  "pills_last q \<Longrightarrow> count_list q Work_pill = 0 \<Longrightarrow> pills_last (q @ [Work args kw])"
  by (induction q rule: pills_last.induct) auto

lemma pending_calls_sorted:
  "sorted (map op_rank (c # prog)) \<Longrightarrow> 0 < op_rank c \<Longrightarrow> pending_calls prog = []"
  by (induction prog rule: pending_calls.induct) auto

lemma set_update_no_dead:
  "W_dead \<notin> set ws \<Longrightarrow> w \<noteq> W_dead \<Longrightarrow> W_dead \<notin> set (ws[i := w])"
  by (auto dest: set_update_subset_insert [THEN subsetD])

lemma inv_pills_moves:
  assumes "moves tgt obs c c'" and "inv_pills N c"
  shows "inv_pills N c'"
  using assms
proof (induction rule: moves.induct)
  case (execute args kw prog p v out)
  then show ?case
    by (auto simp: queue_put_def pills_last_append_work)
next
  case (put_pill prog p v out)
  then show ?case
    using pending_calls_sorted [of Put_pill prog]
    by (auto simp: queue_put_def pills_last_append_pill)
next
  case (get_pill i p rest prog v out)
  then show ?case
    using sum_list_ge_nth [of i "worker_threads p" holds_task]
          sum_list_ge_nth [of i "worker_threads p" pill_taken]
    by (auto simp: sum_list_update_nat set_update_no_dead simp del: sum_list_eq_0_iff)
next
  case (get_work i p args kw rest prog v out)
  then show ?case
    using sum_list_ge_nth [of i "worker_threads p" holds_task]
          sum_list_ge_nth [of i "worker_threads p" pill_taken]
    by (auto simp: sum_list_update_nat set_update_no_dead simp del: sum_list_eq_0_iff)
next
  case (run_raises i p args kw e prog v out)
  then show ?case
    using sum_list_ge_nth [of i "worker_threads p" holds_task]
          sum_list_ge_nth [of i "worker_threads p" pill_taken]
    by (auto simp: sum_list_update_nat set_update_no_dead simp del: sum_list_eq_0_iff)
next
  case (run_returns i p args kw r prog v out)
  then show ?case
    using sum_list_ge_nth [of i "worker_threads p" holds_task]
          sum_list_ge_nth [of i "worker_threads p" pill_taken]
    by (auto simp: sum_list_update_nat set_update_no_dead simp del: sum_list_eq_0_iff)
next
  case (ack i p q prog v out)
  then show ?case
    using sum_list_ge_nth [of i "worker_threads p" holds_task]
          sum_list_ge_nth [of i "worker_threads p" pill_taken]
    by (auto simp: sum_list_update_nat set_update_no_dead task_done_def simp del: sum_list_eq_0_iff split: if_splits)
next
  case (pill_ack i p q prog v out)
  then show ?case
    using sum_list_ge_nth [of i "worker_threads p" holds_task]
          sum_list_ge_nth [of i "worker_threads p" pill_taken]
    by (auto simp: sum_list_update_nat set_update_no_dead task_done_def simp del: sum_list_eq_0_iff split: if_splits)
next
  case (ack_raises i p prog v out)
  then show ?case
    using sum_list_ge_nth [of i "worker_threads p" holds_task]
    by (auto simp: task_done_def simp del: sum_list_eq_0_iff split: if_splits)
qed (auto simp: task_done_def split: if_splits)

lemma pill_last_single [simp]: "pill_last [x]"
  by (cases x) simp_all

lemma pill_last_append:
  "pill_last q \<Longrightarrow> count_list q Result_pill = 0 \<Longrightarrow> pill_last (q @ [x])"
  by (induction q rule: pill_last.induct) auto

lemma no_join_thread_sorted:
  "sorted (map op_rank (c # prog)) \<Longrightarrow> 4 < op_rank c \<Longrightarrow> Join_thread i \<notin> set prog"
  by (induction prog) auto

lemma not_all_done:
  "i < length ws \<Longrightarrow> ws ! i \<noteq> W_done \<Longrightarrow> \<not> (\<forall>w\<in>set ws. w = W_done)"
  by (auto dest: nth_mem)

lemma all_done_nth:
  "\<forall>i<length ws. ws ! i = W_done \<Longrightarrow> w \<in> set ws \<Longrightarrow> w = W_done"
  by (auto simp: in_set_conv_nth)

lemma inv_pills_shape: "inv_pills N c \<Longrightarrow> inv_shape N c"
  by (cases c) simp

lemma inv_results_moves:
  assumes "moves tgt obs c c'" and "inv_shape N c" and "inv_results N c"
    and "\<And>r. fst (fan_calls obs 0 r) = None"
  shows "inv_results N c'"
  using assms
proof (induction rule: moves.induct)
  case (execute args kw prog p v out)
  then show ?case by (auto simp: queue_put_def)
next
  case (put_pill prog p v out)
  then show ?case by (auto simp: queue_put_def)
next
  case (join_thread i p prog v out)
  then show ?case by (auto simp: nth_mem) (metis nth_mem)+
next
  case (put_result_pill prog p v out)
  then have "Join_thread i \<notin> set prog" for i
    using no_join_thread_sorted [of Put_result_pill prog i] by simp
  with put_result_pill show ?case
    by (auto simp: queue_put_def pill_last_append all_done_nth)
next
  case (join_result_thread p prog v out)
  then show ?case by auto
next
  case (join_worker_queue p prog v out)
  then show ?case by auto
next
  case (join_result_queue p prog v out)
  then show ?case by auto
next
  case (get_pill i p rest prog v out)
  then have "\<not> (\<forall>w\<in>set (worker_threads p). w = W_done)"
    by (intro not_all_done [of i]) auto
  with get_pill show ?case
    by (auto simp: nth_list_update)
next
  case (get_work i p args kw rest prog v out)
  then have "\<not> (\<forall>w\<in>set (worker_threads p). w = W_done)"
    by (intro not_all_done [of i]) auto
  with get_work show ?case
    by (auto simp: nth_list_update)
next
  case (run_raises i p args kw e prog v out)
  then have "\<not> (\<forall>w\<in>set (worker_threads p). w = W_done)"
    by (intro not_all_done [of i]) auto
  with run_raises show ?case
    by (auto simp: nth_list_update)
next
  case (run_returns i p args kw r prog v out)
  then have "\<not> (\<forall>w\<in>set (worker_threads p). w = W_done)"
    by (intro not_all_done [of i]) auto
  with run_returns show ?case
    by (auto simp: nth_list_update queue_put_def pill_last_append)
next
  case (ack i p q prog v out)
  then have "\<not> (\<forall>w\<in>set (worker_threads p). w = W_done)"
    by (intro not_all_done [of i]) auto
  with ack show ?case
    by (auto simp: nth_list_update)
next
  case (pill_ack i p q prog v out)
  then have "\<not> (\<forall>w\<in>set (worker_threads p). w = W_done)"
    by (intro not_all_done [of i]) auto
  with pill_ack show ?case
    by (auto simp: nth_list_update)
next
  case (ack_raises i p prog v out)
  then have "\<not> (\<forall>w\<in>set (worker_threads p). w = W_done)"
    by (intro not_all_done [of i]) auto
  with ack_raises show ?case
    by (auto simp: nth_list_update)
next
  case (result_get_pill p rest prog v out)
  then show ?case by auto
next
  case (result_get p r rest prog v out)
  then show ?case by auto
next
  case (handle_returns p r calls prog v out)
  then show ?case by auto
next
  case (handle_raises p r e calls prog v out)
  from handle_raises(2) handle_raises(5) [of r] show ?case by simp
next
  case (result_ack p q prog v out)
  then show ?case by (auto simp: task_done_def split: if_splits)
next
  case (result_pill_ack p q prog v out)
  then show ?case by (auto simp: task_done_def split: if_splits)
next
  case (result_ack_raises p prog v out)
  then show ?case by (auto simp: task_done_def split: if_splits)
qed

lemma results_of_append [simp]: "results_of tgt (cs @ cs') = results_of tgt cs @ results_of tgt cs'"
  by (induction cs rule: results_of.induct) (auto split: sum.splits)

lemma queued_results_append [simp]:
  "queued_results (q @ q') = queued_results q @ queued_results q'"
  by (induction q rule: queued_results.induct) auto

lemma account_moves:
  assumes "moves tgt obs c c'" and "account tgt obs cs v0 out0 rs c"
    and "\<And>r. fst (fan_calls obs 0 r) = None"
  shows "account tgt obs cs v0 out0 rs c' \<or> (\<exists>r. account tgt obs cs v0 out0 (rs @ [r]) c')"
  using assms
proof (induction rule: moves.induct)
  case (execute args kw prog p v out)
  then show ?case by (intro disjI1) (auto simp: queue_put_def split: sum.splits)
next
  case (put_pill prog p v out)
  then show ?case by (intro disjI1) (auto simp: queue_put_def)
next
  case (put_result_pill prog p v out)
  then show ?case by (intro disjI1) (auto simp: queue_put_def)
next
  case (get_pill i p rest prog v out)
  then show ?case
    using sum_list_map_update [of i "worker_threads p" "running_results tgt" W_pill_ack]
    by (intro disjI1) auto
next
  case (get_work i p args kw rest prog v out)
  then show ?case
    using sum_list_map_update [of i "worker_threads p" "running_results tgt" "W_run args kw"]
    by (intro disjI1) (auto split: sum.splits)
next
  case (run_raises i p args kw e prog v out)
  then show ?case
    using sum_list_map_update [of i "worker_threads p" "running_results tgt" W_get]
    by (intro disjI1) auto
next
  case (run_returns i p args kw r prog v out)
  then show ?case
    using sum_list_map_update [of i "worker_threads p" "running_results tgt" W_ack, symmetric]
    by (intro disjI1) (auto simp: queue_put_def)
next
  case (ack i p q prog v out)
  then show ?case
    using sum_list_map_update [of i "worker_threads p" "running_results tgt" W_get]
    by (intro disjI1) (auto simp: task_done_def split: if_splits)
next
  case (pill_ack i p q prog v out)
  then show ?case
    using sum_list_map_update [of i "worker_threads p" "running_results tgt" W_done]
    by (intro disjI1) (auto simp: task_done_def split: if_splits)
next
  case (ack_raises i p prog v out)
  then show ?case
    using sum_list_map_update [of i "worker_threads p" "running_results tgt" W_dead]
    by (intro disjI1) auto
next
  case (result_get_pill p rest prog v out)
  then show ?case by (intro disjI1) auto
next
  case (result_get p r rest prog v out)
  then show ?case by (intro disjI1) auto
next
  case (handle_returns p r calls prog v out)
  then have "account tgt obs cs v0 out0 (rs @ [r]) (prog, p\<lparr>result_thread := R_ack\<rparr>, r, out @ calls)"
    by auto
  then show ?case by blast
next
  case (handle_raises p r e calls prog v out)
  from handle_raises(2) handle_raises(4) [of r] show ?case by simp
next
  case (result_ack p q prog v out)
  then show ?case by (intro disjI1) (auto simp: task_done_def split: if_splits)
next
  case (result_pill_ack p q prog v out)
  then show ?case by (intro disjI1) (auto simp: task_done_def split: if_splits)
qed (auto intro!: disjI1)

lemma pool_inv_moves:
  assumes "moves tgt obs c c'" and "pool_inv tgt obs N cs v0 out0 c"
    and "\<And>r. fst (fan_calls obs 0 r) = None"
  shows "pool_inv tgt obs N cs v0 out0 c'"
proof -
  from assms(2) have 1: "inv_pills N c" and 2: "inv_results N c"
    by (simp_all add: pool_inv_def)
  from assms(2) obtain rs where 3: "account tgt obs cs v0 out0 rs c"
    by (auto simp: pool_inv_def)
  from assms(1) 1 have "inv_pills N c'" by (rule inv_pills_moves)
  moreover from assms(1) inv_pills_shape [OF 1] 2 assms(3) have "inv_results N c'"
    by (rule inv_results_moves)
  moreover from account_moves [OF assms(1) 3 assms(3)]
  have "\<exists>rs. account tgt obs cs v0 out0 rs c'" by blast
  ultimately show ?thesis by (simp add: pool_inv_def)
qed

lemma run_pool_inv:
  assumes "run tgt obs ts s = Some s'" and "get_pool (snd s) \<noteq> None"
    and "pool_inv tgt obs N cs v0 out0 (config_of s)"
    and "\<And>r. fst (fan_calls obs 0 r) = None"
  shows "get_pool (snd s') \<noteq> None \<and> pool_inv tgt obs N cs v0 out0 (config_of s')"
  using assms(1-3)
proof (induction ts arbitrary: s)
  case Nil
  then show ?case by simp
next
  case (Cons t ts)
  from Cons.prems(1) obtain s1 where s1: "sys_step tgt obs t s = Some s1" "run tgt obs ts s1 = Some s'"
    by (auto split: option.splits)
  from sys_step_moves [OF s1(1) Cons.prems(2)]
  have p1: "get_pool (snd s1) \<noteq> None" and m: "moves tgt obs (config_of s) (config_of s1)"
    by simp_all
  from m Cons.prems(3) assms(4) have "pool_inv tgt obs N cs v0 out0 (config_of s1)"
    by (rule pool_inv_moves)
  with s1(2) p1 show ?case by (rule Cons.IH)
qed

lemma fan_calls_accepting:
  "\<forall>ob\<in>set obs. \<forall>d. ob d = Inr () \<Longrightarrow>
     fan_calls obs j d = (None, map (\<lambda>i. (i, d)) [j..<j + length obs])"
proof (induction obs arbitrary: j)
  case Nil
  then show ?case by simp
next
  case (Cons ob obs)
  have "[j..<j + length (ob # obs)] = j # [Suc j..<Suc j + length obs]"
    by (subst upt_rec) simp
  with Cons show ?case by simp
qed

lemma pending_calls_submit [simp]: "pending_calls (submit cs @ prog) = cs @ pending_calls prog"
  by (induction cs) (auto simp: submit_def)

lemma count_list_submit [simp]:
  "count_list (submit cs) Put_pill = 0" "count_list (submit cs) Put_result_pill = 0"
  by (induction cs) (auto simp: submit_def)

lemma count_list_map_Join_thread [simp]:
  "count_list (map Join_thread is) Put_pill = 0"
  "count_list (map Join_thread is) Put_result_pill = 0"
  by (induction "is") auto

lemma count_list_replicate_Put_pill [simp]:
  "count_list (replicate N Put_pill) Put_pill = N"
  "count_list (replicate N Put_pill) Put_result_pill = 0"
  by (induction N) auto

lemma sorted_map_const: "\<forall>x\<in>set xs. f x = (c::nat) \<Longrightarrow> sorted (map f xs)"
  by (induction xs) auto

lemma sorted_submit_stop: "sorted (map op_rank (submit cs @ AsyncWorker_stop N))"
proof -
  have "sorted (map op_rank (submit cs))"
    by (rule sorted_map_const [where c = 0]) (auto simp: submit_def)
  moreover have "sorted (map op_rank (map Join_thread [0..<N]))"
    by (rule sorted_map_const [where c = 4]) auto
  moreover have "\<forall>c\<in>set (submit cs). op_rank c = 0"
    by (auto simp: submit_def)
  ultimately show ?thesis
    by (auto simp: AsyncWorker_stop_def sorted_append)
qed

lemma pending_calls_stop [simp]: "pending_calls (AsyncWorker_stop N) = []"
proof -
  have 1: "pending_calls (replicate N Put_pill @ prog) = pending_calls prog" for prog
    by (induction N) auto
  have 2: "pending_calls (map Join_thread is @ prog) = pending_calls prog" for "is" prog
    by (induction "is") auto
  show ?thesis by (simp add: AsyncWorker_stop_def 1 2)
qed

lemma sum_list_replicate_empty [simp]: "sum_list (replicate N ({#} :: 'a multiset)) = {#}"
  by (induction N) auto

lemma sum_list_replicate_0 [simp]:
  "sum_list (map holds_task (replicate N W_get)) = 0"
  "sum_list (map pill_taken (replicate N W_get)) = 0"
  "sum_list (map (running_results tgt) (replicate N W_get)) = {#}"
  by (induction N) auto

lemma pool_inv_start:
  assumes "worker n0 = AsyncWorker N pl"
  shows "get_pool (AsyncWorker_start n0) \<noteq> None"
    and "pool_inv tgt obs N cs (node_value n0) (notified n0)
           (config_of (submit cs @ AsyncWorker_stop N, AsyncWorker_start n0))"
proof -
  from assms have start: "get_pool (AsyncWorker_start n0) =
      Some \<lparr>worker_queue = new_queue, result_queue = new_queue,
            worker_threads = replicate N W_get, result_thread = R_get\<rparr>"
    "node_value (AsyncWorker_start n0) = node_value n0"
    "notified (AsyncWorker_start n0) = notified n0"
    by (simp_all add: AsyncWorker_start_def get_pool_def)
  then show "get_pool (AsyncWorker_start n0) \<noteq> None" by simp
  have "inv_pills N (config_of (submit cs @ AsyncWorker_stop N, AsyncWorker_start n0))"
    using sorted_submit_stop [of cs N]
    by (simp add: config_of_def start new_queue_def) (simp add: AsyncWorker_stop_def)
  moreover have "inv_results N (config_of (submit cs @ AsyncWorker_stop N, AsyncWorker_start n0))"
    by (simp add: config_of_def start new_queue_def) (simp add: AsyncWorker_stop_def)
  moreover have "account tgt obs cs (node_value n0) (notified n0) []
      (config_of (submit cs @ AsyncWorker_stop N, AsyncWorker_start n0))"
    by (simp add: config_of_def start new_queue_def)
  ultimately show "pool_inv tgt obs N cs (node_value n0) (notified n0)
           (config_of (submit cs @ AsyncWorker_stop N, AsyncWorker_start n0))"
    unfolding pool_inv_def by blast
qed

lemma all_done_sums:
  assumes "\<forall>w\<in>set ws. w = W_done"
  shows "sum_list (map pill_taken ws) = length ws"
    and "sum_list (map (running_results tgt) ws) = {#}"
  using assms by (induction ws) auto

lemma no_calls_no_pills:
  "queued_calls q = [] \<Longrightarrow> count_list q Work_pill = 0 \<Longrightarrow> q = []"
  by (induction q rule: queued_calls.induct) auto

lemma results_of_all_return:
  "\<forall>(args, kw)\<in>set cs. \<exists>r. tgt args kw = Inr r \<Longrightarrow>
     results_of tgt cs = map (\<lambda>(args, kw). projr (tgt args kw)) cs"
  by (induction cs rule: results_of.induct) auto

lemma pool_inv_returned:
  assumes "pool_inv tgt obs N cs v0 out0 ([], p, v, out)" and "0 < N"
  shows "result_thread p = R_done \<and> items (worker_queue p) = [] \<and> items (result_queue p) = [] \<and>
     (\<exists>rs. mset rs = mset (results_of tgt cs) \<and>
        out = out0 @ concat (map (\<lambda>r. snd (fan_calls obs 0 r)) rs) \<and>
        v = (if rs = [] then v0 else last rs))"
proof -
  from assms(1) have alld: "\<forall>w\<in>set (worker_threads p). w = W_done"
    and rt: "result_thread p = R_done"
    by (simp_all add: pool_inv_def)
  from assms(1) rt have rq: "items (result_queue p) = []"
    by (simp add: pool_inv_def)
  from assms(1) have len: "length (worker_threads p) = N"
    by (simp add: pool_inv_def)
  from assms(1) all_done_sums(1) [OF alld] len
  have pills: "count_list (items (worker_queue p)) Work_pill = 0"
    by (simp add: pool_inv_def)
  from assms all_done_sums(1) [OF alld] len
  have "queued_calls (items (worker_queue p)) = []"
    by (simp add: pool_inv_def)
  with pills have wq: "items (worker_queue p) = []"
    by (intro no_calls_no_pills)
  from assms(1) obtain rs where "account tgt obs cs v0 out0 rs ([], p, v, out)"
    by (auto simp: pool_inv_def)
  with wq rq rt all_done_sums(2) [OF alld, of tgt]
  have "mset rs = mset (results_of tgt cs) \<and>
        out = out0 @ concat (map (\<lambda>r. snd (fan_calls obs 0 r)) rs) \<and>
        v = (if rs = [] then v0 else last rs)"
    by simp
  with rt wq rq show ?thesis by blast
qed

lemma moves_weight:
  assumes "moves tgt obs c c'"
  shows "weight c' < weight c"
  using assms
proof (induction rule: moves.induct)
  case (get_pill i p rest prog v out)
  then show ?case
    using sum_list_map_update [of i "worker_threads p" worker_weight W_pill_ack] by simp
next
  case (get_work i p args kw rest prog v out)
  then show ?case
    using sum_list_map_update [of i "worker_threads p" worker_weight "W_run args kw"] by simp
next
  case (run_raises i p args kw e prog v out)
  then show ?case
    using sum_list_map_update [of i "worker_threads p" worker_weight W_get] by simp
next
  case (run_returns i p args kw r prog v out)
  then show ?case
    using sum_list_map_update [of i "worker_threads p" worker_weight W_ack]
    by (simp add: queue_put_def)
next
  case (ack i p q prog v out)
  then show ?case
    using sum_list_map_update [of i "worker_threads p" worker_weight W_get]
    by (auto simp: task_done_def split: if_splits)
next
  case (pill_ack i p q prog v out)
  then show ?case
    using sum_list_map_update [of i "worker_threads p" worker_weight W_done]
    by (auto simp: task_done_def split: if_splits)
next
  case (ack_raises i p prog v out)
  then show ?case
    using sum_list_map_update [of i "worker_threads p" worker_weight W_dead]
    by auto
qed (auto simp: queue_put_def task_done_def split: if_splits)

lemma run_weight:
  assumes "run tgt obs ts s = Some s'" and "get_pool (snd s) \<noteq> None"
  shows "length ts + weight (config_of s') \<le> weight (config_of s)"
  using assms
proof (induction ts arbitrary: s)
  case Nil
  then show ?case by simp
next
  case (Cons t ts)
  from Cons.prems(1) obtain s1 where s1: "sys_step tgt obs t s = Some s1" "run tgt obs ts s1 = Some s'"
    by (auto split: option.splits)
  from sys_step_moves [OF s1(1) Cons.prems(2)]
  have p1: "get_pool (snd s1) \<noteq> None" and m: "moves tgt obs (config_of s) (config_of s1)"
    by simp_all
  from m have "weight (config_of s1) < weight (config_of s)" by (rule moves_weight)
  moreover from s1(2) p1 have "length ts + weight (config_of s') \<le> weight (config_of s1)"
    by (rule Cons.IH)
  ultimately show ?case by simp
qed

lemma weight_start:
  assumes "worker n0 = AsyncWorker N pl"
  shows "weight (config_of (prog, AsyncWorker_start n0)) = sum_list (map op_weight prog)"
proof -
  have "sum_list (map worker_weight (replicate N W_get)) = 0"
    by (induction N) auto
  with assms show ?thesis
    by (simp add: config_of_def AsyncWorker_start_def get_pool_def new_queue_def)
qed

lemma weight_submit_stop:
  "sum_list (map op_weight (submit cs @ AsyncWorker_stop N)) = 7 * length cs + 4 * N + 4"
proof -
  have "sum_list (map op_weight (submit cs)) = 7 * length cs"
    by (induction cs) (auto simp: submit_def)
  moreover have "sum_list (map op_weight (map Join_thread is)) = length is" for "is"
    by (induction "is") auto
  ultimately show ?thesis
    by (simp add: AsyncWorker_stop_def sum_list_replicate)
qed

lemma moves_prog_subset: "moves tgt obs c c' \<Longrightarrow> set (fst c') \<subseteq> set (fst c)"
  by (induction rule: moves.induct) auto

lemma run_prog_subset:
  assumes "run tgt obs ts s = Some s'" and "get_pool (snd s) \<noteq> None"
  shows "set (fst s') \<subseteq> set (fst s)"
  using assms
proof (induction ts arbitrary: s)
  case Nil
  then show ?case by simp
next
  case (Cons t ts)
  from Cons.prems(1) obtain s1 where s1: "sys_step tgt obs t s = Some s1" "run tgt obs ts s1 = Some s'"
    by (auto split: option.splits)
  from sys_step_moves [OF s1(1) Cons.prems(2)]
  have p1: "get_pool (snd s1) \<noteq> None" and m: "moves tgt obs (config_of s) (config_of s1)"
    by simp_all
  from m have "set (fst s1) \<subseteq> set (fst s)"
    using moves_prog_subset [OF m] by (simp add: config_of_def)
  moreover from s1(2) p1 have "set (fst s') \<subseteq> set (fst s1)" by (rule Cons.IH)
  ultimately show ?case by blast
qed

lemma worker_step_enabled:
  assumes "get_pool n = Some p" and "i < length (worker_threads p)"
    and "worker_threads p ! i \<noteq> W_done" and "worker_threads p ! i \<noteq> W_dead"
    and "worker_threads p ! i = W_get \<longrightarrow> items (worker_queue p) \<noteq> []"
  shows "\<exists>n'. worker_step tgt i n = Some n'"
  using assms
  by (cases "worker_threads p ! i")
    (auto simp: worker_step_def split: list.splits work_item.splits sum.splits option.splits)

lemma result_step_enabled:
  assumes "get_pool n = Some p"
    and "result_thread p \<noteq> R_done" and "result_thread p \<noteq> R_dead"
    and "result_thread p = R_get \<longrightarrow> items (result_queue p) \<noteq> []"
  shows "\<exists>n'. result_step obs n = Some n'"
  using assms
  by (cases "result_thread p")
    (auto simp: result_step_def split: list.splits result_item.splits prod.splits option.splits)

lemma pill_taken_le:
  "i < length ws \<Longrightarrow> pill_taken (ws ! i) = 0 \<Longrightarrow> sum_list (map pill_taken ws) < length ws"
proof (induction ws arbitrary: i)
  case Nil
  then show ?case by simp
next
  case (Cons w ws)
  have le: "sum_list (map pill_taken xs) \<le> length xs" for xs
  proof (induction xs)
    case Nil
    then show ?case by simp
  next
    case (Cons x xs)
    then show ?case by (cases x) auto
  qed
  show ?case
  proof (cases i)
    case 0
    with Cons.prems le [of ws] show ?thesis by simp
  next
    case (Suc j)
    with Cons have "sum_list (map pill_taken ws) < length ws" by simp
    then show ?thesis by (cases w) auto
  qed
qed

lemma no_put_pill_sorted:
  "sorted (map op_rank (c # prog)) \<Longrightarrow> 3 < op_rank c \<Longrightarrow> count_list (c # prog) Put_pill = 0"
  by (induction prog) (auto split: if_splits)

lemma no_put_result_pill_sorted:
  "sorted (map op_rank (c # prog)) \<Longrightarrow> 5 < op_rank c \<Longrightarrow> count_list (c # prog) Put_result_pill = 0"
  by (induction prog) (auto split: if_splits)

lemma count_list_pos_nonempty: "0 < count_list xs x \<Longrightarrow> xs \<noteq> []"
  by auto

lemma stop_progress:
  assumes "get_pool n = Some p"
    and "pool_inv tgt obs N cs v0 out0 (prog, p, v, out)"
    and "set prog \<subseteq> set (submit cs @ AsyncWorker_stop N)"
    and "prog \<noteq> []"
  shows "\<exists>t s'. sys_step tgt obs t (prog, n) = Some s'"
proof -
  from assms(4) obtain c rest where prog: "prog = c # rest" by (cases prog) auto
  from assms(2) have pills: "inv_pills N (prog, p, v, out)" and res: "inv_results N (prog, p, v, out)"
    by (simp_all add: pool_inv_def)
  have owner: "\<exists>t s'. sys_step tgt obs t (prog, n) = Some s'" if "do_op c n \<noteq> None"
  proof -
    from that prog have "\<exists>s'. sys_step tgt obs Owner (prog, n) = Some s'" by auto
    then show ?thesis by blast
  qed
  have worker: "\<exists>t s'. sys_step tgt obs t (prog, n) = Some s'"
    if "worker_step tgt i n = Some n'" for i n'
  proof -
    from that have "sys_step tgt obs (Worker_thread i) (prog, n) = Some (prog, n')" by simp
    then show ?thesis by blast
  qed
  have handler: "\<exists>t s'. sys_step tgt obs t (prog, n) = Some s'"
    if "result_step obs n = Some n'" for n'
  proof -
    from that have "sys_step tgt obs Result_thread (prog, n) = Some (prog, n')" by simp
    then show ?thesis by blast
  qed
  from assms(3) prog have c: "c \<in> set (submit cs @ AsyncWorker_stop N)" by auto
  show ?thesis
  proof (cases c)
    case (Execute args kw)
    with assms(1) show ?thesis by (intro owner) (simp add: AsyncWorker_execute_def)
  next
    case Put_pill
    with assms(1) show ?thesis by (intro owner) simp
  next
    case Put_result_pill
    with assms(1) show ?thesis by (intro owner) simp
  next
    case Join_worker_queue
    with c show ?thesis by (auto simp: submit_def AsyncWorker_stop_def)
  next
    case Join_result_queue
    with c show ?thesis by (auto simp: submit_def AsyncWorker_stop_def)
  next
    case (Join_thread i)
    with c have i: "i < N" by (auto simp: submit_def AsyncWorker_stop_def)
    from pills have len: "length (worker_threads p) = N" and nodead: "W_dead \<notin> set (worker_threads p)"
      by simp_all
    show ?thesis
    proof (cases "worker_threads p ! i = W_done")
      case True
      with Join_thread assms(1) i len show ?thesis by (intro owner) simp
    next
      case False
      from i len nodead have nd: "worker_threads p ! i \<noteq> W_dead"
        by (metis nth_mem)
      have "items (worker_queue p) \<noteq> []" if get: "worker_threads p ! i = W_get"
      proof -
        from pills prog Join_thread have "count_list prog Put_pill = 0"
          using no_put_pill_sorted [of c rest] by simp
        moreover from get i len have "sum_list (map pill_taken (worker_threads p)) < N"
          using pill_taken_le [of i "worker_threads p"] by simp
        ultimately have "0 < count_list (items (worker_queue p)) Work_pill"
          using pills by simp
        then show ?thesis by (rule count_list_pos_nonempty)
      qed
      with worker_step_enabled [OF assms(1) _ False nd, of tgt] i len
      obtain n' where "worker_step tgt i n = Some n'" by auto
      then show ?thesis by (rule worker)
    qed
  next
    case Join_result_thread
    from res have nodead: "result_thread p \<noteq> R_dead" by simp
    show ?thesis
    proof (cases "result_thread p = R_done")
      case True
      with Join_result_thread assms(1) show ?thesis by (intro owner) simp
    next
      case False
      have "items (result_queue p) \<noteq> []" if get: "result_thread p = R_get"
      proof -
        from pills prog Join_result_thread have "count_list prog Put_result_pill = 0"
          using no_put_result_pill_sorted [of c rest] by simp
        with res get have "0 < count_list (items (result_queue p)) Result_pill"
          by simp
        then show ?thesis by (rule count_list_pos_nonempty)
      qed
      with result_step_enabled [OF assms(1) False nodead, of obs]
      obtain n' where "result_step obs n = Some n'" by auto
      then show ?thesis by (rule handler)
    qed
  qed
qed

text \<open>
  Claim C1, as amended. A started asynchronous worker with at least one execution worker,
  whose observers do not raise, and an owner that submits the calls \<open>cs\<close>, none of whose
  targets raises, and then calls \<open>stop\<close>; \<open>(prog, n)\<close> is any state some schedule \<open>ts\<close>
  of the threads reaches. \<open>stop\<close> puts one pill per execution worker on the work queue,
  joins every execution worker, then puts one pill on the result queue and joins the result
  thread. No schedule is longer than \<open>7 K + 4 N + 4\<close> steps, and as long as \<open>stop\<close> has
  not returned some thread can move: \<open>stop\<close> returns. Whenever the pill of the result queue
  has been put, every execution worker has returned. When \<open>stop\<close> has returned
  (\<open>prog = []\<close>), both queues are empty, the result thread has returned, and every one of
  the \<open>K\<close> results was delivered: in some order \<open>rs\<close> of the results of all calls, each
  was fanned out to every observer, and the node's value is the last of them.
\<close>

theorem stop_delivers_all:
  assumes "worker n0 = AsyncWorker N pl" and "0 < N"
    and "\<forall>ob\<in>set obs. \<forall>d. ob d = Inr ()"
    and "\<forall>(args, kw)\<in>set cs. \<exists>r. tgt args kw = Inr r"
    and "run tgt obs ts (submit cs @ AsyncWorker_stop N, AsyncWorker_start n0) = Some (prog, n)"
  shows "AsyncWorker_stop N =
        replicate N Put_pill @ map Join_thread [0..<N] @ [Put_result_pill, Join_result_thread] \<and>
     length ts \<le> 7 * length cs + 4 * N + 4 \<and>
     (prog \<noteq> [] \<longrightarrow> (\<exists>t s'. sys_step tgt obs t (prog, n) = Some s')) \<and>
     (\<exists>p. get_pool n = Some p \<and>
        (Put_result_pill \<notin> set prog \<longrightarrow> (\<forall>w\<in>set (worker_threads p). w = W_done)) \<and>
        (prog = [] \<longrightarrow>
           result_thread p = R_done \<and> items (worker_queue p) = [] \<and> items (result_queue p) = [] \<and>
           (\<exists>rs. mset rs = mset (map (\<lambda>(args, kw). projr (tgt args kw)) cs) \<and>
              notified n = notified n0 @ concat (map (\<lambda>r. map (\<lambda>j. (j, r)) [0..<length obs]) rs) \<and>
              node_value n = (if rs = [] then node_value n0 else last rs))))"
proof -
  from assms(3) have fan: "fan_calls obs 0 r = (None, map (\<lambda>j. (j, r)) [0..<length obs])" for r
    using fan_calls_accepting [of obs 0 r] by simp
  then have accept: "fst (fan_calls obs 0 r) = None" for r by simp
  from pool_inv_start(1) [OF assms(1)] pool_inv_start(2) [OF assms(1), of tgt obs cs]
  have started: "get_pool (snd (submit cs @ AsyncWorker_stop N, AsyncWorker_start n0)) \<noteq> None"
    and "pool_inv tgt obs N cs (node_value n0) (notified n0)
           (config_of (submit cs @ AsyncWorker_stop N, AsyncWorker_start n0))"
    by simp_all
  from run_pool_inv [OF assms(5) this accept]
  obtain p where p: "get_pool n = Some p"
    and inv: "pool_inv tgt obs N cs (node_value n0) (notified n0) (prog, p, node_value n, notified n)"
    by (auto simp: config_of_def)
  from run_weight [OF assms(5) started]
  have "length ts \<le> weight (config_of (submit cs @ AsyncWorker_stop N, AsyncWorker_start n0))"
    by simp
  then have bound: "length ts \<le> 7 * length cs + 4 * N + 4"
    by (simp only: weight_start [OF assms(1)] weight_submit_stop)
  from run_prog_subset [OF assms(5) started]
  have "set prog \<subseteq> set (submit cs @ AsyncWorker_stop N)" by simp
  from stop_progress [OF p inv this]
  have progress: "prog \<noteq> [] \<longrightarrow> (\<exists>t s'. sys_step tgt obs t (prog, n) = Some s')"
    by blast
  from inv have order: "Put_result_pill \<notin> set prog \<longrightarrow> (\<forall>w\<in>set (worker_threads p). w = W_done)"
    by (simp add: pool_inv_def count_list_0_iff [symmetric])
  have final: "result_thread p = R_done \<and> items (worker_queue p) = [] \<and> items (result_queue p) = [] \<and>
           (\<exists>rs. mset rs = mset (map (\<lambda>(args, kw). projr (tgt args kw)) cs) \<and>
              notified n = notified n0 @ concat (map (\<lambda>r. map (\<lambda>j. (j, r)) [0..<length obs]) rs) \<and>
              node_value n = (if rs = [] then node_value n0 else last rs))"
    if "prog = []"
    using pool_inv_returned [OF inv [unfolded that] assms(2)] results_of_all_return [OF assms(4)]
    by (simp add: fan)
  from p order final bound progress show ?thesis
    by (simp add: AsyncWorker_stop_def)
qed

theorem stop_delivers_all_witness:
  "outcome (run add_target [accepting]
     [Owner, Worker_thread 0, Worker_thread 0, Worker_thread 0, Owner, Worker_thread 0,
      Worker_thread 0, Owner, Owner, Result_thread, Result_thread, Result_thread,
      Result_thread, Result_thread, Owner]
     (submit [([PyInt 5], [(''b'', PyInt 10)])] @ AsyncWorker_stop 1,
      AsyncWorker_start (pool_node 1))) = Some ([], PyInt 15, [(0, PyInt 15)]) \<and>
   (\<exists>n p. run add_target [accepting]
     [Owner, Worker_thread 0, Worker_thread 0, Worker_thread 0, Owner, Worker_thread 0,
      Worker_thread 0, Owner, Owner, Result_thread, Result_thread, Result_thread,
      Result_thread, Result_thread, Owner]
     (submit [([PyInt 5], [(''b'', PyInt 10)])] @ AsyncWorker_stop 1,
      AsyncWorker_start (pool_node 1)) = Some ([], n) \<and>
     get_pool n = Some p \<and> result_thread p = R_done \<and>
     items (worker_queue p) = [] \<and> items (result_queue p) = [] \<and>
     notified n = [(0, PyInt 15)] \<and> node_value n = PyInt 15)"
proof -
  let ?ts = "[Owner, Worker_thread 0, Worker_thread 0, Worker_thread 0, Owner, Worker_thread 0,
      Worker_thread 0, Owner, Owner, Result_thread, Result_thread, Result_thread,
      Result_thread, Result_thread, Owner]"
  let ?cs = "[([PyInt 5], [(''b'', PyInt 10)])]"
  have out: "outcome (run add_target [accepting] ?ts
     (submit ?cs @ AsyncWorker_stop 1, AsyncWorker_start (pool_node 1))) =
       Some ([], PyInt 15, [(0, PyInt 15)])"
    by code_simp
  then obtain n where n: "run add_target [accepting] ?ts
     (submit ?cs @ AsyncWorker_stop 1, AsyncWorker_start (pool_node 1)) = Some ([], n)"
     "node_value n = PyInt 15" "notified n = [(0, PyInt 15)]"
    by (auto simp: outcome_def)
  have w: "worker (pool_node 1) = AsyncWorker 1 None"
    by (simp add: pool_node_def)
  have obs: "\<forall>ob\<in>set [accepting]. \<forall>d. ob d = Inr ()"
    by (simp add: accepting_def)
  have ret: "\<forall>(args, kw)\<in>set ?cs. \<exists>r. add_target args kw = Inr r"
    by (simp add: add_target_def)
  from stop_delivers_all [OF w _ obs ret n(1)]
  obtain p where "get_pool n = Some p" "result_thread p = R_done"
    "items (worker_queue p) = []" "items (result_queue p) = []"
    by auto
  with out n show ?thesis by blast
qed

text \<open>
  Claim C1 as stated fails in two ways. A started worker without execution workers
  (\<open>num_threads = 0\<close>): \<open>stop\<close> puts no pill and joins no worker, the result thread takes
  its pill and returns, and \<open>stop\<close> returns while the submitted call is still on the work
  queue; nothing was delivered. And an observer that raises: it ends the result thread
  (\<open>_result_handler\<close> has no handler), so of two submitted calls, whose targets return 15
  and 16, only the first result reaches the output port, and \<open>stop\<close> returns.
\<close>

theorem stop_undelivered_counterexample:
  "outcome (run add_target [accepting] [Owner, Owner, Result_thread, Result_thread, Owner]
     (submit [([PyInt 5], [(''b'', PyInt 10)])] @ AsyncWorker_stop 0,
      AsyncWorker_start (pool_node 0))) = Some ([], PyNone, []) \<and>
   outcome (run add_target [rejecting]
     [Owner, Owner, Worker_thread 0, Worker_thread 0, Worker_thread 0, Worker_thread 0,
      Worker_thread 0, Worker_thread 0, Owner, Worker_thread 0, Worker_thread 0, Owner,
      Result_thread, Result_thread, Owner, Owner]
     (submit [([PyInt 5], [(''b'', PyInt 10)]), ([PyInt 6], [(''b'', PyInt 10)])] @ AsyncWorker_stop 1,
      AsyncWorker_start (pool_node 1))) = Some ([], PyInt 15, [(0, PyInt 15)])"
  by code_simp

lemma inv_join_moves:
  assumes "moves tgt obs c c'" and "inv_join tgt cs c" and "0 < failures tgt cs"
  shows "inv_join tgt cs c'"
  using assms
proof (induction rule: moves.induct)
  case (execute args kw prog p v out)
  then show ?case by (auto simp: queue_put_def split: sum.splits)
next
  case (put_pill prog p v out)
  then show ?case by (auto simp: queue_put_def)
next
  case (join_worker_queue p prog v out)
  then have "pending_calls prog = []"
    using pending_calls_sorted [of Join_worker_queue prog] by simp
  with join_worker_queue show ?case by simp
next
  case (get_pill i p rest prog v out)
  then show ?case
    using sum_list_map_update [of i "worker_threads p" "to_ack tgt" W_pill_ack]
    by auto
next
  case (get_work i p args kw rest prog v out)
  then show ?case
    using sum_list_map_update [of i "worker_threads p" "to_ack tgt" "W_run args kw"]
    by (auto split: sum.splits)
next
  case (run_raises i p args kw e prog v out)
  then show ?case
    using sum_list_map_update [of i "worker_threads p" "to_ack tgt" W_get]
    by auto
next
  case (run_returns i p args kw r prog v out)
  then show ?case
    using sum_list_map_update [of i "worker_threads p" "to_ack tgt" W_ack]
    by auto
next
  case (ack i p q prog v out)
  then show ?case
    using sum_list_map_update [of i "worker_threads p" "to_ack tgt" W_get]
    by (auto simp: task_done_def split: if_splits)
next
  case (pill_ack i p q prog v out)
  then show ?case
    using sum_list_map_update [of i "worker_threads p" "to_ack tgt" W_done]
    by (auto simp: task_done_def split: if_splits)
next
  case (ack_raises i p prog v out)
  then show ?case
    using sum_list_map_update [of i "worker_threads p" "to_ack tgt" W_dead]
    by auto
qed auto

lemma run_inv_join:
  assumes "run tgt obs ts s = Some s'" and "get_pool (snd s) \<noteq> None"
    and "inv_join tgt cs (config_of s)" and "0 < failures tgt cs"
  shows "get_pool (snd s') \<noteq> None \<and> inv_join tgt cs (config_of s')"
  using assms(1-3)
proof (induction ts arbitrary: s)
  case Nil
  then show ?case by simp
next
  case (Cons t ts)
  from Cons.prems(1) obtain s1 where s1: "sys_step tgt obs t s = Some s1" "run tgt obs ts s1 = Some s'"
    by (auto split: option.splits)
  from sys_step_moves [OF s1(1) Cons.prems(2)]
  have p1: "get_pool (snd s1) \<noteq> None" and m: "moves tgt obs (config_of s) (config_of s1)"
    by simp_all
  from m Cons.prems(3) assms(4) have "inv_join tgt cs (config_of s1)"
    by (rule inv_join_moves)
  with s1(2) p1 show ?case by (rule Cons.IH)
qed

lemma failures_member:
  "(args, kw) \<in> set cs \<Longrightarrow> tgt args kw = Inl e \<Longrightarrow> 0 < failures tgt cs"
  by (induction cs rule: failures.induct) (auto split: sum.splits)

lemma sorted_submit_join: "sorted (map op_rank (submit cs @ AsyncWorker_join))"
proof -
  have "sorted (map op_rank (submit cs))"
    by (rule sorted_map_const [where c = 0]) (auto simp: submit_def)
  moreover have "\<forall>c\<in>set (submit cs). op_rank c = 0"
    by (auto simp: submit_def)
  ultimately show ?thesis
    by (auto simp: AsyncWorker_join_def sorted_append)
qed

text \<open>
  Claim C2 fails on the code. \<open>_worker\<close> calls \<open>task_done\<close> in the \<open>else\<close> branch only, so
  a call whose target raises is never marked processed. When the owner submits calls of
  which one raises and then calls \<open>join\<close>, then in every state any schedule reaches
  \<open>self.worker_queue.join()\<close> is still ahead, and no schedule is longer than \<open>7 K + 2\<close>
  steps: the threads come to rest and \<open>join\<close> never returns.
\<close>

theorem join_blocks_after_failure:
  assumes "worker n0 = AsyncWorker N pl"
    and "(args, kw) \<in> set cs" and "tgt args kw = Inl e"
    and "run tgt obs ts (submit cs @ AsyncWorker_join, AsyncWorker_start n0) = Some (prog, n)"
  shows "Join_worker_queue \<in> set prog \<and> length ts \<le> 7 * length cs + 2"
proof -
  from assms(2,3) have f: "0 < failures tgt cs" by (rule failures_member)
  from assms(1) have start: "get_pool (AsyncWorker_start n0) =
      Some \<lparr>worker_queue = new_queue, result_queue = new_queue,
            worker_threads = replicate N W_get, result_thread = R_get\<rparr>"
    by (simp add: AsyncWorker_start_def get_pool_def)
  have "sum_list (map (to_ack tgt) (replicate N W_get)) = 0"
    by (induction N) auto
  then have "inv_join tgt cs (config_of (submit cs @ AsyncWorker_join, AsyncWorker_start n0))"
    using sorted_submit_join [of cs]
    by (simp add: config_of_def start new_queue_def) (simp add: AsyncWorker_join_def)
  moreover from start have "get_pool (snd (submit cs @ AsyncWorker_join, AsyncWorker_start n0)) \<noteq> None"
    by simp
  ultimately have "inv_join tgt cs (config_of (prog, n))"
    using run_inv_join [OF assms(4) _ _ f] by blast
  then have blocked: "Join_worker_queue \<in> set prog" by (simp add: config_of_def)
  have "sum_list (map op_weight (submit cs)) = 7 * length cs"
    by (induction cs) (auto simp: submit_def)
  then have "weight (config_of (submit cs @ AsyncWorker_join, AsyncWorker_start n0)) = 7 * length cs + 2"
    by (simp add: weight_start [OF assms(1)] AsyncWorker_join_def)
  moreover from start have "get_pool (snd (submit cs @ AsyncWorker_join, AsyncWorker_start n0)) \<noteq> None"
    by simp
  from run_weight [OF assms(4) this]
  have "length ts \<le> weight (config_of (submit cs @ AsyncWorker_join, AsyncWorker_start n0))"
    by simp
  ultimately have "length ts \<le> 7 * length cs + 2" by simp
  with blocked show ?thesis by simp
qed

theorem join_blocks_after_failure_witness:
  "outcome (run add_target [accepting] [Owner, Worker_thread 0, Worker_thread 0]
     (submit [([PyNone], [(''b'', PyInt 10)])] @ AsyncWorker_join, AsyncWorker_start (pool_node 1))) =
     Some ([Join_worker_queue, Join_result_queue], PyNone, []) \<and>
   (\<exists>s. run add_target [accepting] [Owner, Worker_thread 0, Worker_thread 0]
     (submit [([PyNone], [(''b'', PyInt 10)])] @ AsyncWorker_join, AsyncWorker_start (pool_node 1)) = Some s \<and>
     Join_worker_queue \<in> set (fst s) \<and>
     sys_step add_target [accepting] Owner s = None \<and>
     sys_step add_target [accepting] (Worker_thread 0) s = None \<and>
     sys_step add_target [accepting] Result_thread s = None)"
proof -
  let ?run = "run add_target [accepting] [Owner, Worker_thread 0, Worker_thread 0]
     (submit [([PyNone], [(''b'', PyInt 10)])] @ AsyncWorker_join, AsyncWorker_start (pool_node 1))"
  have out: "outcome ?run = Some ([Join_worker_queue, Join_result_queue], PyNone, [])"
    by code_simp
  have stuck: "(case ?run of None \<Rightarrow> False | Some s \<Rightarrow>
      sys_step add_target [accepting] Owner s = None \<and>
      sys_step add_target [accepting] (Worker_thread 0) s = None \<and>
      sys_step add_target [accepting] Result_thread s = None)"
    by code_simp
  from out obtain prog n where s: "?run = Some (prog, n)"
    by (auto simp: outcome_def)
  have w: "worker (pool_node 1) = AsyncWorker 1 None"
    by (simp add: pool_node_def)
  have "add_target [PyNone] [(''b'', PyInt 10)] = Inl TypeError"
    by (simp add: add_target_def)
  from join_blocks_after_failure [OF w _ this s]
  have "Join_worker_queue \<in> set prog" by simp
  with out s stuck show ?thesis by auto
qed
section \<open>Stopping a graph\<close>

lemma sys_step_append:
  "sys_step tgt obs t (prog, n) = Some (prog', n') \<Longrightarrow>
     sys_step tgt obs t (prog @ ext, n) = Some (prog' @ ext, n')"
  by (cases t; cases prog) (auto split: option.splits)

lemma run_append_prog:
  "run tgt obs ts (prog, n) = Some (prog', n') \<Longrightarrow>
     run tgt obs ts (prog @ ext, n) = Some (prog' @ ext, n')"
proof (induction ts arbitrary: prog n)
  case Nil
  then show ?case by simp
next
  case (Cons t ts)
  from Cons.prems obtain prog1 n1 where
    s1: "sys_step tgt obs t (prog, n) = Some (prog1, n1)" "run tgt obs ts (prog1, n1) = Some (prog', n')"
    by (auto split: option.splits)
  from sys_step_append [OF s1(1)] Cons.IH [OF s1(2)] show ?case by simp
qed

lemma run_append:
  "run tgt obs (ts @ ts') s =
     (case run tgt obs ts s of None \<Rightarrow> None | Some s' \<Rightarrow> run tgt obs ts' s')"
  by (induction ts arbitrary: s) (auto split: option.splits)

lemma get_pool_is_async: "get_pool n = Some p \<Longrightarrow> is_async n"
  by (auto simp: get_pool_def is_async_def split: worker.splits)

lemma is_sync_iff: "is_sync n \<longleftrightarrow> \<not> is_async n"
  by (auto simp: is_sync_def is_async_def split: worker.splits)

lemma stop_returns:
  assumes "get_pool (snd s) \<noteq> None"
    and "pool_inv tgt obs N cs v0 out0 (config_of s)"
    and "set (fst s) \<subseteq> set (submit cs @ AsyncWorker_stop N)"
    and acc: "\<And>r. fst (fan_calls obs 0 r) = None"
  shows "\<exists>ts n'. run tgt obs ts s = Some ([], n')"
  using assms(1-3)
proof (induction "weight (config_of s)" arbitrary: s rule: less_induct)
  case less
  obtain prog n where s: "s = (prog, n)" by (cases s)
  show ?case
  proof (cases "prog = []")
    case True
    then have "run tgt obs [] s = Some ([], n)" by (simp add: s)
    then show ?thesis by blast
  next
    case False
    from less.prems(1) obtain p where p: "get_pool n = Some p" by (auto simp: s)
    from less.prems(2) have inv: "pool_inv tgt obs N cs v0 out0 (prog, p, node_value n, notified n)"
      by (simp add: s config_of_def p)
    from less.prems(3) have "set prog \<subseteq> set (submit cs @ AsyncWorker_stop N)" by (simp add: s)
    from stop_progress [OF p inv this False]
    obtain t s1 where st: "sys_step tgt obs t s = Some s1" by (auto simp: s)
    from sys_step_moves [OF st less.prems(1)]
    have p1: "get_pool (snd s1) \<noteq> None" and m: "moves tgt obs (config_of s) (config_of s1)"
      by simp_all
    from moves_weight [OF m] have w: "weight (config_of s1) < weight (config_of s)" .
    from pool_inv_moves [OF m less.prems(2) acc]
    have inv1: "pool_inv tgt obs N cs v0 out0 (config_of s1)" .
    from moves_prog_subset [OF m] less.prems(3)
    have sub: "set (fst s1) \<subseteq> set (submit cs @ AsyncWorker_stop N)"
      by (auto simp: config_of_def)
    from less.hyps [OF w p1 inv1 sub]
    obtain ts n' where "run tgt obs ts s1 = Some ([], n')" by blast
    with st have "run tgt obs (t # ts) s = Some ([], n')" by simp
    then show ?thesis by blast
  qed
qed

lemma Node_stop_pool:
  assumes "get_pool n = Some p"
  shows "Node_stop tgt obs ts n =
     (case run tgt obs ts (AsyncWorker_stop (length (worker_threads p)), n) of
        None \<Rightarrow> None
      | Some (prog, n') \<Rightarrow> if prog = [] then Some (Inr n') else None)"
  using assms by (auto simp: Node_stop_def get_pool_def split: worker.splits option.splits)

lemma started_node:
  assumes w: "worker n0 = AsyncWorker N pl"
    and obs: "\<forall>ob\<in>set obs. \<forall>d. ob d = Inr ()"
    and r0: "run tgt obs ts0 (submit cs, AsyncWorker_start n0) = Some ([], n)"
  shows "\<exists>p. get_pool n = Some p \<and> length (worker_threads p) = N \<and>
      pool_inv tgt obs N cs (node_value n0) (notified n0) (config_of (AsyncWorker_stop N, n)) \<and>
      length ts0 + weight (config_of (AsyncWorker_stop N, n)) \<le> 7 * length cs + 4 * N + 4"
proof -
  from obs have accept: "fst (fan_calls obs 0 r) = None" for r
    using fan_calls_accepting [of obs 0 r] by simp
  from run_append_prog [OF r0, of "AsyncWorker_stop N"]
  have ext: "run tgt obs ts0 (submit cs @ AsyncWorker_stop N, AsyncWorker_start n0) =
      Some (AsyncWorker_stop N, n)"
    by simp
  from pool_inv_start(1) [OF w] pool_inv_start(2) [OF w, of tgt obs cs]
  have started: "get_pool (snd (submit cs @ AsyncWorker_stop N, AsyncWorker_start n0)) \<noteq> None"
    and "pool_inv tgt obs N cs (node_value n0) (notified n0)
           (config_of (submit cs @ AsyncWorker_stop N, AsyncWorker_start n0))"
    by simp_all
  from run_pool_inv [OF ext this accept]
  obtain p where p: "get_pool n = Some p"
    and inv: "pool_inv tgt obs N cs (node_value n0) (notified n0) (config_of (AsyncWorker_stop N, n))"
    by auto
  from inv p have len: "length (worker_threads p) = N"
    by (simp add: pool_inv_def config_of_def)
  from run_weight [OF ext started]
  have "length ts0 + weight (config_of (AsyncWorker_stop N, n)) \<le> 7 * length cs + 4 * N + 4"
    by (simp only: weight_start [OF w] weight_submit_stop)
  with p len inv show ?thesis by blast
qed

lemma Node_stop_started:
  assumes w: "worker n0 = AsyncWorker N pl" and N: "0 < N"
    and obs: "\<forall>ob\<in>set obs. \<forall>d. ob d = Inr ()"
    and r0: "run tgt obs ts0 (submit cs, AsyncWorker_start n0) = Some ([], n)"
  shows "\<exists>ts n'. Node_stop tgt obs ts n = Some (Inr n')"
    and "Node_stop tgt obs ts n = Some r \<Longrightarrow>
      \<exists>n' p. r = Inr n' \<and> get_pool n' = Some p \<and>
        (\<forall>w\<in>set (worker_threads p). w = W_done) \<and> result_thread p = R_done \<and>
        items (worker_queue p) = [] \<and> items (result_queue p) = [] \<and>
        (\<exists>rs. mset rs = mset (results_of tgt cs) \<and>
           notified n' = notified n0 @ concat (map (\<lambda>r. map (\<lambda>j. (j, r)) [0..<length obs]) rs) \<and>
           node_value n' = (if rs = [] then node_value n0 else last rs))"
proof -
  from obs have fan: "fan_calls obs 0 r = (None, map (\<lambda>j. (j, r)) [0..<length obs])" for r
    using fan_calls_accepting [of obs 0 r] by simp
  then have accept: "fst (fan_calls obs 0 r) = None" for r by simp
  from started_node [OF w obs r0]
  obtain p where p: "get_pool n = Some p" and len: "length (worker_threads p) = N"
    and inv: "pool_inv tgt obs N cs (node_value n0) (notified n0) (config_of (AsyncWorker_stop N, n))"
    by blast
  have stop: "Node_stop tgt obs ts n =
     (case run tgt obs ts (AsyncWorker_stop N, n) of
        None \<Rightarrow> None
      | Some (prog, n') \<Rightarrow> if prog = [] then Some (Inr n') else None)" for ts
    using Node_stop_pool [OF p] by (simp add: len)
  from p have pn: "get_pool (snd (AsyncWorker_stop N, n)) \<noteq> None" by simp
  have "set (fst (AsyncWorker_stop N, n)) \<subseteq> set (submit cs @ AsyncWorker_stop N)" by simp
  from stop_returns [OF pn inv this accept]
  obtain ts' n' where "run tgt obs ts' (AsyncWorker_stop N, n) = Some ([], n')" by blast
  then have "Node_stop tgt obs ts' n = Some (Inr n')" by (simp add: stop)
  then show "\<exists>ts n'. Node_stop tgt obs ts n = Some (Inr n')" by blast
  show "\<exists>n' p. r = Inr n' \<and> get_pool n' = Some p \<and>
        (\<forall>w\<in>set (worker_threads p). w = W_done) \<and> result_thread p = R_done \<and>
        items (worker_queue p) = [] \<and> items (result_queue p) = [] \<and>
        (\<exists>rs. mset rs = mset (results_of tgt cs) \<and>
           notified n' = notified n0 @ concat (map (\<lambda>r. map (\<lambda>j. (j, r)) [0..<length obs]) rs) \<and>
           node_value n' = (if rs = [] then node_value n0 else last rs))"
    if "Node_stop tgt obs ts n = Some r"
  proof -
    from that obtain n' where run: "run tgt obs ts (AsyncWorker_stop N, n) = Some ([], n')"
      and r: "r = Inr n'"
      by (auto simp: stop split: option.splits if_splits)
    from run_pool_inv [OF run pn inv accept]
    obtain p' where p': "get_pool n' = Some p'"
      and inv': "pool_inv tgt obs N cs (node_value n0) (notified n0) ([], p', node_value n', notified n')"
      by (auto simp: config_of_def)
    from inv' have alld: "\<forall>w\<in>set (worker_threads p'). w = W_done"
      by (simp add: pool_inv_def)
    from pool_inv_returned [OF inv' N] r p' alld show ?thesis
      by (simp add: fan)
  qed
qed

lemma Node_stop_sync: "is_sync n \<Longrightarrow> Node_stop tgt obs ts n = Some (Inr (SyncWorker_stop n))"
  by (auto simp: Node_stop_def is_sync_def split: worker.splits)

lemma stop_where_returns:
  assumes "length ns' = length ns"
    and "\<forall>k<length ns. if P (ns ! k)
           then Node_stop (tgts (i + k)) (obss (i + k)) (scheds (i + k)) (ns ! k) = Some (Inr (ns' ! k))
           else ns' ! k = ns ! k"
  shows "stop_where P tgts obss scheds ns i =
     Some (None, ns',
           concat (map (\<lambda>k. [Stop_called (i + k), Stop_returned (i + k)])
                   (filter (\<lambda>k. P (ns ! k)) [0..<length ns])))"
  using assms
proof (induction ns arbitrary: ns' i)
  case Nil
  then show ?case by simp
next
  case (Cons n ns)
  from Cons.prems(1) obtain n' ns1 where ns': "ns' = n' # ns1" and len: "length ns1 = length ns"
    by (cases ns') auto
  from Cons.prems(2) have hd: "if P n then Node_stop (tgts i) (obss i) (scheds i) n = Some (Inr n')
      else n' = n"
    by (auto simp: ns')
  from Cons.prems(2) have tl: "\<forall>k<length ns. if P (ns ! k)
      then Node_stop (tgts (Suc i + k)) (obss (Suc i + k)) (scheds (Suc i + k)) (ns ! k) = Some (Inr (ns1 ! k))
      else ns1 ! k = ns ! k"
    by (auto simp: ns' All_less_Suc2)
  have IH: "stop_where P tgts obss scheds ns (Suc i) =
     Some (None, ns1,
           concat (map (\<lambda>k. [Stop_called (Suc i + k), Stop_returned (Suc i + k)])
                   (filter (\<lambda>k. P (ns ! k)) [0..<length ns])))"
    using len tl by (rule Cons.IH)
  have idx: "[0..<Suc (length ns)] = 0 # map Suc [0..<length ns]"
    by (simp only: upt_conv_Cons [OF zero_less_Suc] map_Suc_upt)
  show ?case
    using hd by (simp add: IH idx ns' filter_map comp_def del: upt_Suc)
qed

lemma stop_where_result:
  assumes "stop_where P tgts obss scheds ns i = Some res"
    and "\<forall>k<length ns. P (ns ! k) \<longrightarrow>
           (\<forall>e. Node_stop (tgts (i + k)) (obss (i + k)) (scheds (i + k)) (ns ! k) \<noteq> Some (Inl e))"
  shows "\<exists>ns'. length ns' = length ns \<and>
     res = (None, ns',
            concat (map (\<lambda>k. [Stop_called (i + k), Stop_returned (i + k)])
                    (filter (\<lambda>k. P (ns ! k)) [0..<length ns]))) \<and>
     (\<forall>k<length ns. if P (ns ! k)
        then Node_stop (tgts (i + k)) (obss (i + k)) (scheds (i + k)) (ns ! k) = Some (Inr (ns' ! k))
        else ns' ! k = ns ! k)"
  using assms
proof (induction ns arbitrary: res i)
  case Nil
  then show ?case by simp
next
  case (Cons n ns)
  from Cons.prems(2) have hd: "P n \<Longrightarrow> Node_stop (tgts i) (obss i) (scheds i) n \<noteq> Some (Inl e)" for e
    by auto
  from Cons.prems(2) have tl: "\<forall>k<length ns. P (ns ! k) \<longrightarrow>
      (\<forall>e. Node_stop (tgts (Suc i + k)) (obss (Suc i + k)) (scheds (Suc i + k)) (ns ! k) \<noteq> Some (Inl e))"
    by (auto simp: All_less_Suc2)
  from Cons.prems(1) hd obtain res1 n' where
    rest: "stop_where P tgts obss scheds ns (Suc i) = Some res1"
    and n': "if P n then Node_stop (tgts i) (obss i) (scheds i) n = Some (Inr n') else n' = n"
    and res: "res = (fst res1, n' # fst (snd res1),
        (if P n then [Stop_called i, Stop_returned i] else []) @ snd (snd res1))"
    by (auto split: if_splits option.splits sum.splits)
  from Cons.IH [OF rest tl] obtain ns1 where len: "length ns1 = length ns"
    and res1: "res1 = (None, ns1,
        concat (map (\<lambda>k. [Stop_called (Suc i + k), Stop_returned (Suc i + k)])
                (filter (\<lambda>k. P (ns ! k)) [0..<length ns])))"
    and all: "\<forall>k<length ns. if P (ns ! k)
        then Node_stop (tgts (Suc i + k)) (obss (Suc i + k)) (scheds (Suc i + k)) (ns ! k) = Some (Inr (ns1 ! k))
        else ns1 ! k = ns ! k"
    by blast
  have idx: "[0..<Suc (length ns)] = 0 # map Suc [0..<length ns]"
    by (simp only: upt_conv_Cons [OF zero_less_Suc] map_Suc_upt)
  have "length (n' # ns1) = length (n # ns)" by (simp add: len)
  moreover have "res = (None, n' # ns1,
      concat (map (\<lambda>k. [Stop_called (i + k), Stop_returned (i + k)])
              (filter (\<lambda>k. P ((n # ns) ! k)) [0..<length (n # ns)])))"
    by (simp add: res res1 idx filter_map comp_def del: upt_Suc)
  moreover have "\<forall>k<length (n # ns). if P ((n # ns) ! k)
      then Node_stop (tgts (i + k)) (obss (i + k)) (scheds (i + k)) ((n # ns) ! k) = Some (Inr ((n' # ns1) ! k))
      else (n' # ns1) ! k = (n # ns) ! k"
    using n' all by (auto simp: All_less_Suc2)
  ultimately show ?case by blast
qed

lemma stop_where_sync:
  "stop_where is_sync tgts obss scheds ns 0 =
     Some (None, map (\<lambda>n. if is_sync n then SyncWorker_stop n else n) ns, stops_of is_sync ns)"
  using stop_where_returns
    [of "map (\<lambda>n. if is_sync n then SyncWorker_stop n else n) ns" ns is_sync tgts 0 obss scheds]
  by (simp add: Node_stop_sync stops_of_def)

lemma stops_of_cong:
  assumes "length ns' = length ns" and "\<forall>k<length ns. P (ns' ! k) = P (ns ! k)"
  shows "stops_of P ns' = stops_of P ns"
proof -
  from assms have "filter (\<lambda>k. P (ns' ! k)) [0..<length ns'] = filter (\<lambda>k. P (ns ! k)) [0..<length ns]"
    by (auto intro: filter_cong)
  then show ?thesis by (simp add: stops_of_def)
qed

lemma Stop_returned_in_stops:
  "i < length ns \<Longrightarrow> P (ns ! i) \<Longrightarrow> Stop_returned i \<in> set (stops_of P ns)"
  by (auto simp: stops_of_def)

lemma Stop_called_in_stops:
  "i < length ns \<Longrightarrow> P (ns ! i) \<Longrightarrow> Stop_called i \<in> set (stops_of P ns)"
  by (auto simp: stops_of_def)

lemma stops_order:
  assumes "i < length ns" "j < length ns" "is_async (ns ! i)" "is_sync (ns ! j)"
  shows "\<exists>before between after.
      [l, Set_not_alive] @ stops_of is_async ns @ stops_of is_sync ns =
        before @ Stop_returned i # between @ Stop_called j # after \<and> Set_not_alive \<in> set before"
proof -
  from assms(1,3) have "Stop_returned i \<in> set (stops_of is_async ns)"
    by (rule Stop_returned_in_stops)
  then obtain a1 a2 where a: "stops_of is_async ns = a1 @ Stop_returned i # a2"
    by (auto dest: split_list)
  from assms(2,4) have "Stop_called j \<in> set (stops_of is_sync ns)"
    by (rule Stop_called_in_stops)
  then obtain s1 s2 where s: "stops_of is_sync ns = s1 @ Stop_called j # s2"
    by (auto dest: split_list)
  have "[l, Set_not_alive] @ stops_of is_async ns @ stops_of is_sync ns =
      ([l, Set_not_alive] @ a1) @ Stop_returned i # (a2 @ s1) @ Stop_called j # s2"
    by (simp add: a s)
  moreover have "Set_not_alive \<in> set ([l, Set_not_alive] @ a1)" by simp
  ultimately show ?thesis by blast
qed

lemma stop_never_blocks:
  assumes w: "worker n0 = AsyncWorker N pl"
    and obs: "\<forall>ob\<in>set obs. \<forall>d. ob d = Inr ()"
    and r0: "run tgt obs ts0 (submit cs, AsyncWorker_start n0) = Some ([], n)"
  shows "\<exists>p. get_pool n = Some p \<and>
     (\<forall>ts prog n'. run tgt obs ts (AsyncWorker_stop (length (worker_threads p)), n) = Some (prog, n') \<longrightarrow>
        length ts \<le> 7 * length cs + 4 * length (worker_threads p) + 4 \<and>
        (prog \<noteq> [] \<longrightarrow> (\<exists>t s'. sys_step tgt obs t (prog, n') = Some s')))"
proof -
  from obs have accept: "fst (fan_calls obs 0 r) = None" for r
    using fan_calls_accepting [of obs 0 r] by simp
  from started_node [OF w obs r0]
  obtain p where p: "get_pool n = Some p" and len: "length (worker_threads p) = N"
    and inv: "pool_inv tgt obs N cs (node_value n0) (notified n0) (config_of (AsyncWorker_stop N, n))"
    and bound: "length ts0 + weight (config_of (AsyncWorker_stop N, n)) \<le> 7 * length cs + 4 * N + 4"
    by blast
  from p have pn: "get_pool (snd (AsyncWorker_stop N, n)) \<noteq> None" by simp
  have "length ts \<le> 7 * length cs + 4 * N + 4 \<and>
        (prog \<noteq> [] \<longrightarrow> (\<exists>t s'. sys_step tgt obs t (prog, n') = Some s'))"
    if run: "run tgt obs ts (AsyncWorker_stop N, n) = Some (prog, n')" for ts prog n'
  proof -
    from run_weight [OF run pn] bound have b: "length ts \<le> 7 * length cs + 4 * N + 4" by simp
    from run_pool_inv [OF run pn inv accept]
    obtain p' where p': "get_pool n' = Some p'"
      and inv': "pool_inv tgt obs N cs (node_value n0) (notified n0) (prog, p', node_value n', notified n')"
      by (auto simp: config_of_def)
    from run_prog_subset [OF run pn]
    have "set prog \<subseteq> set (submit cs @ AsyncWorker_stop N)" by auto
    from stop_progress [OF p' inv' this] b show ?thesis by blast
  qed
  with p len show ?thesis by blast
qed

text \<open>
  Claim C8, as amended. A graph in which every node with an asynchronous worker is in a
  state that a started pool with at least one thread reaches: positions \<open>i\<close> of such nodes
  come with the node \<open>n0s i\<close> before \<open>start\<close>, the calls \<open>css i\<close> submitted since and a
  schedule \<open>ts0s i\<close> of the owner and the threads that leads to the node of the graph; the
  observers of these nodes do not raise, and nothing is submitted once \<open>Graph.stop\<close> is
  called. Nodes with a synchronous worker are arbitrary. Then
  \<^item> there are schedules of the threads under which \<open>Graph.stop\<close> returns;
  \<^item> whenever it returns it has raised nothing, the graph is not alive, and what it did
    is, in this order: the log line, \<open>is_alive = False\<close>, for each node with an
    asynchronous worker in list order the call and the return of its \<open>stop\<close>, then the
    same for each node with a synchronous worker in list order. When the first loop is left,
    that is before the first \<open>stop\<close> of a synchronous worker is called, the nodes are
    \<open>ns1\<close>: every node with a synchronous worker is as it was, its \<open>stop\<close> not begun, and
    every node with an asynchronous worker is drained: every thread of its pool has
    returned, both queues are empty, and the results of all submitted calls whose target
    returned were delivered, each fanned out to every observer, the last one being the
    node's value. The second loop leaves the drained nodes as they are;
  \<^item> no \<open>stop\<close> of an asynchronous worker blocks: every schedule of its pool is bounded, and
    as long as \<open>stop\<close> has not returned some thread can move.
\<close>

theorem Graph_stop_order:
  assumes started: "\<forall>i<length (nodes g). is_async (nodes g ! i) \<longrightarrow>
       (\<exists>N pl. worker (n0s i) = AsyncWorker N pl \<and> 0 < N) \<and>
       (\<forall>ob\<in>set (obss i). \<forall>d. ob d = Inr ()) \<and>
       run (tgts i) (obss i) (ts0s i) (submit (css i), AsyncWorker_start (n0s i)) =
         Some ([], nodes g ! i)"
  shows "(\<exists>scheds. Graph_stop tgts obss scheds g \<noteq> None) \<and>
     (\<forall>scheds res. Graph_stop tgts obss scheds g = Some res \<longrightarrow>
        (\<exists>ns1 ns2.
           stop_where is_async tgts obss scheds (nodes g) 0 =
             Some (None, ns1, stops_of is_async (nodes g)) \<and>
           stop_where is_sync tgts obss scheds ns1 0 =
             Some (None, ns2, stops_of is_sync (nodes g)) \<and>
           res = (None, g\<lparr>nodes := ns2, is_alive := False\<rparr>,
                  [Log_info stop_message (name g), Set_not_alive] @
                  stops_of is_async (nodes g) @ stops_of is_sync (nodes g)) \<and>
           length ns1 = length (nodes g) \<and> length ns2 = length (nodes g) \<and>
           (\<forall>i<length (nodes g).
              if is_async (nodes g ! i) then
                ns2 ! i = ns1 ! i \<and>
                (\<exists>p. get_pool (ns1 ! i) = Some p \<and>
                   (\<forall>w\<in>set (worker_threads p). w = W_done) \<and> result_thread p = R_done \<and>
                   items (worker_queue p) = [] \<and> items (result_queue p) = [] \<and>
                   (\<exists>rs. mset rs = mset (results_of (tgts i) (css i)) \<and>
                      notified (ns1 ! i) = notified (n0s i) @
                        concat (map (\<lambda>r. map (\<lambda>j. (j, r)) [0..<length (obss i)]) rs) \<and>
                      node_value (ns1 ! i) = (if rs = [] then node_value (n0s i) else last rs)))
              else ns1 ! i = nodes g ! i \<and> ns2 ! i = SyncWorker_stop (nodes g ! i))) \<and>
        (\<forall>i j. i < length (nodes g) \<and> j < length (nodes g) \<and>
               is_async (nodes g ! i) \<and> is_sync (nodes g ! j) \<longrightarrow>
           (\<exists>before between after.
              snd (snd res) = before @ Stop_returned i # between @ Stop_called j # after \<and>
              Set_not_alive \<in> set before))) \<and>
     (\<forall>i<length (nodes g). is_async (nodes g ! i) \<longrightarrow>
        (\<exists>p. get_pool (nodes g ! i) = Some p \<and>
           (\<forall>ts prog n.
              run (tgts i) (obss i) ts (AsyncWorker_stop (length (worker_threads p)), nodes g ! i) =
                Some (prog, n) \<longrightarrow>
              length ts \<le> 7 * length (css i) + 4 * length (worker_threads p) + 4 \<and>
              (prog \<noteq> [] \<longrightarrow> (\<exists>t s'. sys_step (tgts i) (obss i) t (prog, n) = Some s')))))"
proof (intro conjI allI impI)
  let ?ns = "nodes g"
  let ?pre = "[Log_info stop_message (name g), Set_not_alive]"
  let ?drained = "\<lambda>i n. \<exists>p. get_pool n = Some p \<and>
                   (\<forall>w\<in>set (worker_threads p). w = W_done) \<and> result_thread p = R_done \<and>
                   items (worker_queue p) = [] \<and> items (result_queue p) = [] \<and>
                   (\<exists>rs. mset rs = mset (results_of (tgts i) (css i)) \<and>
                      notified n = notified (n0s i) @
                        concat (map (\<lambda>r. map (\<lambda>j. (j, r)) [0..<length (obss i)]) rs) \<and>
                      node_value n = (if rs = [] then node_value (n0s i) else last rs))"
  have returns: "\<exists>ts n'. Node_stop (tgts i) (obss i) ts (?ns ! i) = Some (Inr n')"
    and drains: "\<And>ts r. Node_stop (tgts i) (obss i) ts (?ns ! i) = Some r \<Longrightarrow>
        \<exists>n'. r = Inr n' \<and> ?drained i n'"
    and blocks: "\<exists>p. get_pool (?ns ! i) = Some p \<and>
           (\<forall>ts prog n.
              run (tgts i) (obss i) ts (AsyncWorker_stop (length (worker_threads p)), ?ns ! i) =
                Some (prog, n) \<longrightarrow>
              length ts \<le> 7 * length (css i) + 4 * length (worker_threads p) + 4 \<and>
              (prog \<noteq> [] \<longrightarrow> (\<exists>t s'. sys_step (tgts i) (obss i) t (prog, n) = Some s')))"
    if "i < length ?ns" "is_async (?ns ! i)" for i
  proof -
    from started that obtain N pl where w: "worker (n0s i) = AsyncWorker N pl" and N: "0 < N"
      and obs: "\<forall>ob\<in>set (obss i). \<forall>d. ob d = Inr ()"
      and r0: "run (tgts i) (obss i) (ts0s i) (submit (css i), AsyncWorker_start (n0s i)) =
         Some ([], ?ns ! i)"
      by blast
    from Node_stop_started(1) [OF w N obs r0]
    show "\<exists>ts n'. Node_stop (tgts i) (obss i) ts (?ns ! i) = Some (Inr n')" .
    show "\<exists>n'. r = Inr n' \<and> ?drained i n'"
      if "Node_stop (tgts i) (obss i) ts (?ns ! i) = Some r" for ts r
      using Node_stop_started(2) [OF w N obs r0 that] by blast
    from stop_never_blocks [OF w obs r0]
    show "\<exists>p. get_pool (?ns ! i) = Some p \<and>
           (\<forall>ts prog n.
              run (tgts i) (obss i) ts (AsyncWorker_stop (length (worker_threads p)), ?ns ! i) =
                Some (prog, n) \<longrightarrow>
              length ts \<le> 7 * length (css i) + 4 * length (worker_threads p) + 4 \<and>
              (prog \<noteq> [] \<longrightarrow> (\<exists>t s'. sys_step (tgts i) (obss i) t (prog, n) = Some s')))" .
  qed
  show "\<exists>scheds. Graph_stop tgts obss scheds g \<noteq> None"
  proof -
    from returns have "\<forall>i. \<exists>ts n'. i < length ?ns \<and> is_async (?ns ! i) \<longrightarrow>
        Node_stop (tgts i) (obss i) ts (?ns ! i) = Some (Inr n')"
      by blast
    then obtain scheds f where sf: "\<forall>i. i < length ?ns \<and> is_async (?ns ! i) \<longrightarrow>
        Node_stop (tgts i) (obss i) (scheds i) (?ns ! i) = Some (Inr (f i))"
      by metis
    let ?ns1 = "map (\<lambda>i. if is_async (?ns ! i) then f i else ?ns ! i) [0..<length ?ns]"
    from sf have "stop_where is_async tgts obss scheds ?ns 0 =
        Some (None, ?ns1, stops_of is_async ?ns)"
      using stop_where_returns [of ?ns1 ?ns is_async tgts 0 obss scheds]
      by (simp add: stops_of_def)
    then have "Graph_stop tgts obss scheds g \<noteq> None"
      by (simp add: Graph_stop_def stop_where_sync)
    then show ?thesis by blast
  qed
  show "\<exists>p. get_pool (?ns ! i) = Some p \<and>
           (\<forall>ts prog n.
              run (tgts i) (obss i) ts (AsyncWorker_stop (length (worker_threads p)), ?ns ! i) =
                Some (prog, n) \<longrightarrow>
              length ts \<le> 7 * length (css i) + 4 * length (worker_threads p) + 4 \<and>
              (prog \<noteq> [] \<longrightarrow> (\<exists>t s'. sys_step (tgts i) (obss i) t (prog, n) = Some s')))"
    if "i < length ?ns" "is_async (?ns ! i)" for i
    using that by (rule blocks)
  fix scheds res
  assume G: "Graph_stop tgts obss scheds g = Some res"
  then obtain r1 where a: "stop_where is_async tgts obss scheds ?ns 0 = Some r1"
    by (auto simp: Graph_stop_def split: option.splits)
  have "\<forall>k<length ?ns. is_async (?ns ! k) \<longrightarrow>
      (\<forall>e. Node_stop (tgts (0 + k)) (obss (0 + k)) (scheds (0 + k)) (?ns ! k) \<noteq> Some (Inl e))"
    using drains by fastforce
  from stop_where_result [OF a this]
  have "\<exists>ns1. length ns1 = length ?ns \<and> r1 = (None, ns1, stops_of is_async ?ns) \<and>
      (\<forall>k<length ?ns. if is_async (?ns ! k)
        then Node_stop (tgts k) (obss k) (scheds k) (?ns ! k) = Some (Inr (ns1 ! k))
        else ns1 ! k = ?ns ! k)"
    by (simp add: stops_of_def cong: if_cong)
  then obtain ns1 where len1: "length ns1 = length ?ns"
    and r1: "r1 = (None, ns1, stops_of is_async ?ns)"
    and all1: "\<forall>k<length ?ns. if is_async (?ns ! k)
        then Node_stop (tgts k) (obss k) (scheds k) (?ns ! k) = Some (Inr (ns1 ! k))
        else ns1 ! k = ?ns ! k"
    by blast
  have drained: "?drained k (ns1 ! k)" if "k < length ?ns" "is_async (?ns ! k)" for k
  proof -
    from all1 that have "Node_stop (tgts k) (obss k) (scheds k) (?ns ! k) = Some (Inr (ns1 ! k))"
      by simp
    from drains [OF that this] show ?thesis by simp
  qed
  have kind: "is_async (ns1 ! k) = is_async (?ns ! k)" if "k < length ?ns" for k
  proof (cases "is_async (?ns ! k)")
    case True
    from drained [OF that True] show ?thesis using True by (auto dest: get_pool_is_async)
  next
    case False
    with all1 that show ?thesis by simp
  qed
  let ?ns2 = "map (\<lambda>n. if is_sync n then SyncWorker_stop n else n) ns1"
  from len1 kind have s: "stops_of is_sync ns1 = stops_of is_sync ?ns"
    by (intro stops_of_cong) (simp_all add: is_sync_iff)
  have b: "stop_where is_sync tgts obss scheds ns1 0 = Some (None, ?ns2, stops_of is_sync ?ns)"
    by (simp add: stop_where_sync s)
  from G have res: "res = (None, g\<lparr>nodes := ?ns2, is_alive := False\<rparr>,
      ?pre @ stops_of is_async ?ns @ stops_of is_sync ?ns)"
    by (simp add: Graph_stop_def a r1 b)
  have nodes: "\<forall>i<length ?ns.
      if is_async (?ns ! i) then ?ns2 ! i = ns1 ! i \<and> ?drained i (ns1 ! i)
      else ns1 ! i = ?ns ! i \<and> ?ns2 ! i = SyncWorker_stop (?ns ! i)"
  proof (intro allI impI)
    fix i assume i: "i < length ?ns"
    show "if is_async (?ns ! i) then ?ns2 ! i = ns1 ! i \<and> ?drained i (ns1 ! i)
      else ns1 ! i = ?ns ! i \<and> ?ns2 ! i = SyncWorker_stop (?ns ! i)"
    proof (cases "is_async (?ns ! i)")
      case True
      with kind [OF i] have "?ns2 ! i = ns1 ! i"
        using i len1 by (simp add: is_sync_iff)
      with drained [OF i True] True show ?thesis by simp
    next
      case False
      with all1 i have "ns1 ! i = ?ns ! i" by simp
      with False i len1 show ?thesis by (simp add: is_sync_iff)
    qed
  qed
  from a r1 b res len1 nodes
  show "\<exists>ns1 ns2.
           stop_where is_async tgts obss scheds (nodes g) 0 =
             Some (None, ns1, stops_of is_async (nodes g)) \<and>
           stop_where is_sync tgts obss scheds ns1 0 =
             Some (None, ns2, stops_of is_sync (nodes g)) \<and>
           res = (None, g\<lparr>nodes := ns2, is_alive := False\<rparr>,
                  [Log_info stop_message (name g), Set_not_alive] @
                  stops_of is_async (nodes g) @ stops_of is_sync (nodes g)) \<and>
           length ns1 = length (nodes g) \<and> length ns2 = length (nodes g) \<and>
           (\<forall>i<length (nodes g).
              if is_async (nodes g ! i) then
                ns2 ! i = ns1 ! i \<and>
                (\<exists>p. get_pool (ns1 ! i) = Some p \<and>
                   (\<forall>w\<in>set (worker_threads p). w = W_done) \<and> result_thread p = R_done \<and>
                   items (worker_queue p) = [] \<and> items (result_queue p) = [] \<and>
                   (\<exists>rs. mset rs = mset (results_of (tgts i) (css i)) \<and>
                      notified (ns1 ! i) = notified (n0s i) @
                        concat (map (\<lambda>r. map (\<lambda>j. (j, r)) [0..<length (obss i)]) rs) \<and>
                      node_value (ns1 ! i) = (if rs = [] then node_value (n0s i) else last rs)))
              else ns1 ! i = nodes g ! i \<and> ns2 ! i = SyncWorker_stop (nodes g ! i))"
    by (intro exI [of _ ns1] exI [of _ ?ns2]) simp
  fix i j
  assume "i < length ?ns \<and> j < length ?ns \<and> is_async (?ns ! i) \<and> is_sync (?ns ! j)"
  then show "\<exists>before between after.
      snd (snd res) = before @ Stop_returned i # between @ Stop_called j # after \<and>
      Set_not_alive \<in> set before"
    using stops_order [of i ?ns j "Log_info stop_message (name g)"] by (simp add: res)
qed

theorem Graph_stop_order_witness:
  "stopped_graph (Graph_stop (\<lambda>i. add_target) (\<lambda>i. [accepting]) (\<lambda>i. example_schedule)
       example_graph) =
     Some (None, False,
           [(False, [], [], PyNone, []),
            (False, [], [], PyInt 15, [(0, PyInt 15)]),
            (False, [], [], PyNone, [])],
           [Log_info stop_message ''example'', Set_not_alive, Stop_called 1, Stop_returned 1,
            Stop_called 0, Stop_returned 0, Stop_called 2, Stop_returned 2]) \<and>
   (\<exists>ns1 p. stop_where is_async (\<lambda>i. add_target) (\<lambda>i. [accepting]) (\<lambda>i. example_schedule)
         (nodes example_graph) 0 = Some (None, ns1, [Stop_called 1, Stop_returned 1]) \<and>
       ns1 ! 0 = add_node \<and> ns1 ! 2 = add_node \<and>
       get_pool (ns1 ! 1) = Some p \<and> result_thread p = R_done \<and>
       items (worker_queue p) = [] \<and> items (result_queue p) = [])"
proof -
  let ?cs = "[([PyInt 5], [(''b'', PyInt 10)])]"
  have ev: "stopped_graph (Graph_stop (\<lambda>i. add_target) (\<lambda>i. [accepting]) (\<lambda>i. example_schedule)
       example_graph) =
     Some (None, False,
           [(False, [], [], PyNone, []),
            (False, [], [], PyInt 15, [(0, PyInt 15)]),
            (False, [], [], PyNone, [])],
           [Log_info stop_message ''example'', Set_not_alive, Stop_called 1, Stop_returned 1,
            Stop_called 0, Stop_returned 0, Stop_called 2, Stop_returned 2])"
    by code_simp
  then obtain res where G: "Graph_stop (\<lambda>i. add_target) (\<lambda>i. [accepting]) (\<lambda>i. example_schedule)
       example_graph = Some res"
    by (auto simp: stopped_graph_def)
  have r: "run add_target [accepting] [Owner] (submit ?cs, AsyncWorker_start (pool_node 1)) =
      Some ([], busy_node 1 ?cs)"
    by code_simp
  have kinds: "\<not> is_async (nodes example_graph ! 0)" "is_async (nodes example_graph ! 1)"
    "\<not> is_async (nodes example_graph ! 2)" "length (nodes example_graph) = 3"
    by (simp_all add: example_graph_def busy_node_def add_node_def is_async_def)
  have hyp: "\<forall>i<length (nodes example_graph). is_async (nodes example_graph ! i) \<longrightarrow>
       (\<exists>N pl. worker (pool_node 1) = AsyncWorker N pl \<and> 0 < N) \<and>
       (\<forall>ob\<in>set [accepting]. \<forall>d. ob d = Inr ()) \<and>
       run add_target [accepting] [Owner] (submit ?cs, AsyncWorker_start (pool_node 1)) =
         Some ([], nodes example_graph ! i)"
  proof (intro allI impI)
    fix i
    assume "i < length (nodes example_graph)" "is_async (nodes example_graph ! i)"
    with kinds have i: "i = 1"
      by (cases "i = 0"; cases "i = 2") auto
    have nth: "nodes example_graph ! 1 = busy_node 1 ?cs"
      by (simp add: example_graph_def)
    have w: "\<exists>N pl. worker (pool_node 1) = AsyncWorker N pl \<and> 0 < N"
      by (simp add: pool_node_def)
    have acc: "\<forall>ob\<in>set [accepting]. \<forall>d. ob d = Inr ()"
      by (simp add: accepting_def)
    show "(\<exists>N pl. worker (pool_node 1) = AsyncWorker N pl \<and> 0 < N) \<and>
       (\<forall>ob\<in>set [accepting]. \<forall>d. ob d = Inr ()) \<and>
       run add_target [accepting] [Owner] (submit ?cs, AsyncWorker_start (pool_node 1)) =
         Some ([], nodes example_graph ! i)"
      unfolding i nth using w acc r by blast
  qed
  have stops: "stops_of is_async (nodes example_graph) = [Stop_called 1, Stop_returned 1]"
    by (simp add: stops_of_def example_graph_def busy_node_def add_node_def is_async_def upt_rec)
  from Graph_stop_order [OF hyp] G
  obtain ns1 ns2 where a: "stop_where is_async (\<lambda>i. add_target) (\<lambda>i. [accepting])
        (\<lambda>i. example_schedule) (nodes example_graph) 0 =
        Some (None, ns1, stops_of is_async (nodes example_graph))"
    and nodes: "\<forall>i<length (nodes example_graph).
        if is_async (nodes example_graph ! i) then
          ns2 ! i = ns1 ! i \<and>
          (\<exists>p. get_pool (ns1 ! i) = Some p \<and>
             (\<forall>w\<in>set (worker_threads p). w = W_done) \<and> result_thread p = R_done \<and>
             items (worker_queue p) = [] \<and> items (result_queue p) = [] \<and>
             (\<exists>rs. mset rs = mset (results_of add_target ?cs) \<and>
                notified (ns1 ! i) = notified (pool_node 1) @
                  concat (map (\<lambda>r. map (\<lambda>j. (j, r)) [0..<length [accepting]]) rs) \<and>
                node_value (ns1 ! i) = (if rs = [] then node_value (pool_node 1) else last rs)))
        else ns1 ! i = nodes example_graph ! i \<and> ns2 ! i = SyncWorker_stop (nodes example_graph ! i)"
    by blast
  from nodes [THEN spec, of 0] kinds have "ns1 ! 0 = add_node"
    by (simp add: example_graph_def)
  moreover from nodes [THEN spec, of 2] kinds have "ns1 ! 2 = add_node"
    by (simp add: example_graph_def)
  moreover from nodes [THEN spec, of 1] kinds
  obtain p where "get_pool (ns1 ! 1) = Some p" "result_thread p = R_done"
    "items (worker_queue p) = []" "items (result_queue p) = []"
    by auto
  ultimately show ?thesis using ev a stops by auto
qed

text \<open>
  Claim C8 as stated fails. A graph that was never started, with a node around an unstarted
  asynchronous worker before a synchronous one: the first \<open>stop\<close> raises \<open>TypeError\<close>, the
  graph is not alive and the synchronous worker is never stopped. A started pool without
  threads (\<open>num_threads = 0\<close>) with a call on its work queue: its \<open>stop\<close> returns and the
  synchronous worker is stopped while the call is still on the work queue, nothing was
  drained. And an observer that raises: it ends the result thread, so of two submitted
  calls the result 16 of the second is still on the result queue when \<open>stop\<close> returns and the
  synchronous worker is stopped.
\<close>

theorem Graph_stop_undrained_counterexample:
  "stopped_graph (Graph_stop (\<lambda>i. add_target) (\<lambda>i. [accepting]) (\<lambda>i. [])
       \<lparr>name = ''example'', nodes = [pool_node 1, add_node], is_alive = True\<rparr>) =
     Some (Some TypeError, False,
           [(False, [], [], PyNone, []), (True, [], [], PyNone, [])],
           [Log_info stop_message ''example'', Set_not_alive, Stop_called 0, Stop_raised 0 TypeError]) \<and>
   stopped_graph (Graph_stop (\<lambda>i. add_target) (\<lambda>i. [accepting])
       (\<lambda>i. [Owner, Result_thread, Result_thread, Owner])
       \<lparr>name = ''example'', nodes = [busy_node 0 [([PyInt 5], [(''b'', PyInt 10)])], add_node],
        is_alive = True\<rparr>) =
     Some (None, False,
           [(False, [([PyInt 5], [(''b'', PyInt 10)])], [], PyNone, []), (False, [], [], PyNone, [])],
           [Log_info stop_message ''example'', Set_not_alive, Stop_called 0, Stop_returned 0,
            Stop_called 1, Stop_returned 1]) \<and>
   stopped_graph (Graph_stop (\<lambda>i. add_target) (\<lambda>i. [rejecting])
       (\<lambda>i. [Worker_thread 0, Worker_thread 0, Worker_thread 0, Worker_thread 0, Worker_thread 0,
             Worker_thread 0, Owner, Worker_thread 0, Worker_thread 0, Owner, Owner,
             Result_thread, Result_thread, Owner])
       \<lparr>name = ''example'',
        nodes = [busy_node 1 [([PyInt 5], [(''b'', PyInt 10)]), ([PyInt 6], [(''b'', PyInt 10)])], add_node],
        is_alive = True\<rparr>) =
     Some (None, False,
           [(False, [], [PyInt 16], PyInt 15, [(0, PyInt 15)]), (False, [], [], PyNone, [])],
           [Log_info stop_message ''example'', Set_not_alive, Stop_called 0, Stop_returned 0,
            Stop_called 1, Stop_returned 1])"
  by code_simp

end
